theory Spec2Isabelle
  imports Main "HOL-Library.Word" "HOL-Library.Monad_Syntax" "HOL-Library.Product_Lexorder"
begin

unbundle bit_operations_syntax

section \<open>The model of the program\<close>

text \<open>
  The identical-code-folding pass of the linker (\<^verbatim>\<open>icf.cc\<close>) and the priority loop of
  the driver (\<^verbatim>\<open>main.cc\<close>).  Pointers to sections and symbols are natural numbers that
  index a store; a null pointer is \<open>None\<close>.  A step of the source whose behaviour is
  undefined (an index out of range, \<^verbatim>\<open>back()\<close> of an empty vector) or that throws
  (\<^verbatim>\<open>substr(8)\<close> of a shorter string) has the value \<open>None\<close>.
\<close>

type_synonym u8 = "8 word"
type_synonym u32 = "32 word"
type_synonym u64 = "64 word"
type_synonym i64 = "64 word"
type_synonym isec_ptr = nat
type_synonym sym_ptr = nat

subsection \<open>The driver's object files (\<^verbatim>\<open>main.cc\<close>)\<close>

text \<open>
  The class \<^verbatim>\<open>ObjectFile\<close> of the driver is declared in a header that is not part of the
  sources at hand; \<open>InputFile\<close> holds the members that the loops below read and write
  (the record \<open>ObjectFile\<close> further down is the class of that name as the pass sees it).
  Modelled from the spec: the member \<open>priority\<close> orders files by load order, archive
  members after the others, so it is read as an unsigned 32-bit number; it holds the bit
  pattern of the 32-bit \<^verbatim>\<open>int\<close> expression that the loop assigns.
\<close>

record InputFile =
  is_in_archive :: bool
  is_alive :: bool
  priority :: u32

text \<open>
  \<^verbatim>\<open>for (int i = 0; i < files.size(); i++)
    files[i]->priority = files[i]->is_in_archive() ? i + (1 << 31) : i;\<close>
  The arithmetic is that of a 32-bit \<^verbatim>\<open>int\<close>: \<^verbatim>\<open>1 << 31\<close> sets the top bit.
\<close>

function set_priorities_loop :: "nat \<Rightarrow> InputFile list \<Rightarrow> InputFile list" where
  "set_priorities_loop i files =
     (if i < length files
      then set_priorities_loop (i + 1)
             (files[i := (files ! i)\<lparr>priority :=
                 (if is_in_archive (files ! i) then word_of_nat i + push_bit 31 1
                  else word_of_nat i)\<rparr>])
      else files)"
  by pat_completeness auto
termination
  by (relation "measure (\<lambda>(i, files). length files - i)") auto

declare set_priorities_loop.simps [simp del]

definition set_priorities :: "InputFile list \<Rightarrow> InputFile list" where
  "set_priorities files = set_priorities_loop 0 files"

text \<open>
  \<^verbatim>\<open>files.erase(std::remove_if(..., [](ObjectFile *file){ return !file->is_alive; }), ...)\<close>:
  the final input list keeps the live files, in order.
\<close>

definition eliminate_unused :: "InputFile list \<Rightarrow> InputFile list" where
  "eliminate_unused files = filter is_alive files"

subsection \<open>Digests and the hash\<close>

text \<open>
  OpenSSL's SHA-256 is not part of the sources.  A hashing context is the list of the bytes
  absorbed so far; the hash itself is a parameter \<open>sha256\<close> of every function that
  finishes a context, from the absorbed bytes to the 32 bytes of the result, held as a
  256-bit number whose most significant byte is the first byte of the result.
  \<^verbatim>\<open>SHA256_Final\<close> is taken to succeed, as the source asserts.

  \<^verbatim>\<open>typedef std::array<u8, HASH_SIZE> Digest\<close>, with \<^verbatim>\<open>HASH_SIZE = 16\<close>: a digest is a
  128-bit number whose most significant byte is the first byte of the array, so that the
  order of the numbers is the order of the arrays (byte by byte, the first difference
  decides).  \<open>digest_data\<close> gives the 16 bytes of the array.
\<close>

type_synonym SHA256_CTX = "u8 list"
type_synonym Digest = "128 word"

definition HASH_SIZE :: nat where
  "HASH_SIZE = 16"

definition SHA256_Init :: SHA256_CTX where
  "SHA256_Init = []"

definition SHA256_Update :: "SHA256_CTX \<Rightarrow> u8 list \<Rightarrow> SHA256_CTX" where
  "SHA256_Update ctx bytes = ctx @ bytes"

text \<open>
  \<^verbatim>\<open>digest_final\<close> copies the first \<^verbatim>\<open>HASH_SIZE\<close> bytes of the result of SHA-256.
\<close>

definition digest_final :: "(u8 list \<Rightarrow> 256 word) \<Rightarrow> SHA256_CTX \<Rightarrow> Digest" where
  "digest_final sha256 ctx = ucast (drop_bit (8 * HASH_SIZE) (sha256 ctx))"

definition digest_data :: "Digest \<Rightarrow> u8 list" where
  "digest_data d = map (\<lambda>k. ucast (drop_bit (8 * (HASH_SIZE - 1 - k)) d)) [0..<HASH_SIZE]"

subsection \<open>The propagator\<close>

text \<open>
  \<^verbatim>\<open>for (i64 j = begin; j < end; j++)
    SHA256_Update(&ctx, digests[slot][edges[j]].data(), HASH_SIZE);\<close>
\<close>

function propagate_edges ::
  "Digest list \<Rightarrow> u32 list \<Rightarrow> nat \<Rightarrow> nat \<Rightarrow> SHA256_CTX \<Rightarrow> SHA256_CTX option" where
  "propagate_edges cur edges j end ctx =
     (if j < end
      then (if j < length edges \<and> unat (edges ! j) < length cur
            then propagate_edges cur edges (j + 1) end
                   (SHA256_Update ctx (digest_data (cur ! unat (edges ! j))))
            else None)
      else Some ctx)"
  by pat_completeness auto
termination
  by (relation "measure (\<lambda>(cur, edges, j, end, ctx). end - j)") auto

declare propagate_edges.simps [simp del]

text \<open>
  The body of the parallel loop of \<^verbatim>\<open>propagate\<close> for the section \<open>i\<close>, where \<open>cur\<close>
  is \<^verbatim>\<open>digests[slot]\<close> and \<open>n\<close> is \<^verbatim>\<open>digests[0].size()\<close>:
  \<^verbatim>\<open>i64 begin = edge_indices[i];
  i64 end = (i + 1 == digests[0].size()) ? edges.size() : edge_indices[i + 1];
  SHA256_Init(&ctx);
  SHA256_Update(&ctx, digests[slot][i].data(), HASH_SIZE);
  ...
  digests[slot ^ 1][i] = digest_final(ctx);\<close>
\<close>

definition propagate_section ::
  "(u8 list \<Rightarrow> 256 word) \<Rightarrow> Digest list \<Rightarrow> u32 list \<Rightarrow> u32 list \<Rightarrow> nat \<Rightarrow> nat \<Rightarrow>
   Digest option" where
  "propagate_section sha256 cur edges edge_indices n i =
     (if i < length edge_indices \<and> (i + 1 = n \<or> i + 1 < length edge_indices) \<and> i < length cur
      then
        (let begin = unat (edge_indices ! i);
             end = (if i + 1 = n then length edges else unat (edge_indices ! (i + 1)));
             ctx = SHA256_Update SHA256_Init (digest_data (cur ! i))
         in map_option (digest_final sha256) (propagate_edges cur edges begin end ctx))
      else None)"

text \<open>
  The parallel loop over the sections, run in the order of the indices.  It reads the
  buffer \<^verbatim>\<open>digests[slot]\<close> and writes the buffer \<^verbatim>\<open>digests[slot ^ 1]\<close>.
\<close>

function propagate_loop ::
  "(u8 list \<Rightarrow> 256 word) \<Rightarrow> u32 list \<Rightarrow> u32 list \<Rightarrow> nat \<Rightarrow> nat \<Rightarrow> nat \<Rightarrow>
   Digest list list \<Rightarrow> Digest list list option" where
  "propagate_loop sha256 edges edge_indices slot n i digests =
     (if i < n
      then (if slot < length digests \<and> slot XOR 1 < length digests \<and>
               i < length (digests ! (slot XOR 1))
            then (case propagate_section sha256 (digests ! slot) edges edge_indices n i of
                    None \<Rightarrow> None
                  | Some d \<Rightarrow>
                      propagate_loop sha256 edges edge_indices slot n (i + 1)
                        (digests[slot XOR 1 := (digests ! (slot XOR 1))[i := d]]))
            else None)
      else Some digests)"
  by pat_completeness auto
termination
  by (relation "measure (\<lambda>(sha256, edges, edge_indices, slot, n, i, digests). n - i)") auto

declare propagate_loop.simps [simp del]

definition propagate ::
  "(u8 list \<Rightarrow> 256 word) \<Rightarrow> Digest list list \<Rightarrow> u32 list \<Rightarrow> u32 list \<Rightarrow> nat \<Rightarrow>
   Digest list list option" where
  "propagate sha256 digests edges edge_indices slot =
     (if 0 < length digests
      then propagate_loop sha256 edges edge_indices slot (length (digests ! 0)) 0 digests
      else None)"

text \<open>
  \<^verbatim>\<open>count_num_classes\<close> sorts a copy of the digests and adds one for every index \<open>i\<close>
  from 0 up to, and not including, \<open>size - 1\<close> with \<^verbatim>\<open>vec[i] != vec[i + 1]\<close>.  The bound
  is computed in signed 64-bit arithmetic, so there is no index when the vector is empty.
\<close>

definition count_num_classes :: "Digest list \<Rightarrow> int" where
  "count_num_classes digests =
     (let vec = sort digests
      in int (length (filter (\<lambda>i. vec ! i \<noteq> vec ! (i + 1)) [0..<length vec - 1])))"


text \<open>
  A round of the loop of \<^verbatim>\<open>icf_sections\<close>:
  \<^verbatim>\<open>propagate(digests, edges, edge_indices, slot); slot ^= 1;\<close>
  and the loop, with its counter \<open>i\<close> and the count \<open>num_classes\<close> of the last check
  (\<open>-1\<close> at first):
  \<^verbatim>\<open>if (i % 10 == 9) {
    i64 n = count_num_classes(digests[slot]);
    if (n == num_classes) break;
    num_classes = n;
  }\<close>
  The source's loop has no bound; here it has fuel, and no result when the fuel runs out.
\<close>

definition propagation_round ::
  "(u8 list \<Rightarrow> 256 word) \<Rightarrow> u32 list \<Rightarrow> u32 list \<Rightarrow> Digest list list \<times> nat \<Rightarrow>
   (Digest list list \<times> nat) option" where
  "propagation_round sha256 edges edge_indices st =
     (case st of (digests, slot) \<Rightarrow>
        map_option (\<lambda>digests'. (digests', slot XOR 1))
          (propagate sha256 digests edges edge_indices slot))"

fun propagation_rounds ::
  "nat \<Rightarrow> (u8 list \<Rightarrow> 256 word) \<Rightarrow> u32 list \<Rightarrow> u32 list \<Rightarrow> nat \<Rightarrow> int \<Rightarrow>
   Digest list list \<times> nat \<Rightarrow> (Digest list list \<times> nat) option" where
  "propagation_rounds 0 sha256 edges edge_indices i num_classes st = None"
| "propagation_rounds (Suc fuel) sha256 edges edge_indices i num_classes st =
     (case propagation_round sha256 edges edge_indices st of
        None \<Rightarrow> None
      | Some (digests, slot) \<Rightarrow>
          (if i mod 10 = 9
           then (let n = count_num_classes (digests ! slot)
                 in if n = num_classes then Some (digests, slot)
                    else propagation_rounds fuel sha256 edges edge_indices (i + 1) n
                           (digests, slot))
           else propagation_rounds fuel sha256 edges edge_indices (i + 1) num_classes
                  (digests, slot)))"

text \<open>
  For the statements about a round: the current digests of the out-neighbours of section
  \<open>i\<close> in the order of the edge array, the bytes that the round absorbs for \<open>i\<close>, and the
  condition under which no access of a round is out of range.
\<close>

definition neighbor_digests :: "Digest list \<Rightarrow> u32 list \<Rightarrow> u32 list \<Rightarrow> nat \<Rightarrow> Digest list" where
  "neighbor_digests cur edges edge_indices i =
     map (\<lambda>j. cur ! unat (edges ! j))
       [unat (edge_indices ! i) ..<
        (if i + 1 = length cur then length edges else unat (edge_indices ! (i + 1)))]"

definition absorbed :: "Digest list \<Rightarrow> u32 list \<Rightarrow> u32 list \<Rightarrow> nat \<Rightarrow> u8 list" where
  "absorbed cur edges edge_indices i =
     concat (map digest_data (cur ! i # neighbor_digests cur edges edge_indices i))"

definition edges_in_range :: "nat \<Rightarrow> u32 list \<Rightarrow> u32 list \<Rightarrow> bool" where
  "edges_in_range n edges edge_indices \<longleftrightarrow>
     length edge_indices = n \<and>
     (\<forall>i < n. \<forall>j. unat (edge_indices ! i) \<le> j \<and>
         j < (if i + 1 = n then length edges else unat (edge_indices ! (i + 1)))
       \<longrightarrow> j < length edges \<and> unat (edges ! j) < n)"

subsection \<open>The object model read by the pass (\<^verbatim>\<open>icf.cc\<close>)\<close>

text \<open>
  The classes of the object model are declared in \<^verbatim>\<open>mold.h\<close>, which is not part of the
  sources at hand; the records below hold the members that \<^verbatim>\<open>icf.cc\<close> reads and writes,
  under the names it uses (\<open>contents\<close> for \<^verbatim>\<open>get_contents()\<close>, \<open>isec_file\<close> for the
  member \<^verbatim>\<open>file\<close>, the index of the section's file in \<^verbatim>\<open>out::objs\<close>; \<open>sym_frag\<close> and
  \<open>sym_value\<close> for the members \<^verbatim>\<open>frag\<close> and \<^verbatim>\<open>value\<close> of a symbol; \<open>eh_sym\<close>,
  \<open>eh_type\<close>, \<open>eh_offset\<close> and \<open>eh_addend\<close> for the members of an \<^verbatim>\<open>EhReloc\<close>).  Every
  number that the pass feeds to \<^verbatim>\<open>hash_i64\<close> is held as the 64-bit value which that call
  receives.  The pass reads nothing of a fragment but its bytes, so a pointer to a fragment
  is the fragment.

  Modelled from the spec: \<open>get_priority\<close> holds what \<^verbatim>\<open>get_priority()\<close> returns, a total
  order over the sections of all files, compared as a signed 64-bit number; \<open>is_dead\<close> is
  what \<^verbatim>\<open>kill()\<close> sets.
\<close>

record ElfShdr =
  sh_flags :: u64
  sh_type :: u32

record SectionFragment =
  data :: "u8 list"

record SectionFragmentRef =
  frag :: SectionFragment
  addend :: i64

record ElfRela =
  r_offset :: i64
  r_type :: i64
  r_sym :: nat
  r_addend :: i64

record Symbol =
  input_section :: "isec_ptr option"
  sym_frag :: "SectionFragment option"
  sym_value :: i64

record EhReloc =
  eh_sym :: sym_ptr
  eh_type :: i64
  eh_offset :: i64
  eh_addend :: i64

record FdeRecord =
  fde_contents :: "u8 list"
  fde_rels :: "EhReloc list"

record InputSection =
  shdr :: ElfShdr
  name :: string
  contents :: "u8 list"
  rels :: "ElfRela list"
  has_fragments :: "bool list"
  rel_fragments :: "SectionFragmentRef list"
  fdes :: "FdeRecord list"
  isec_file :: nat
  get_priority :: i64
  icf_eligible :: bool
  icf_leaf :: bool
  icf_idx :: nat
  leader :: "isec_ptr option"
  is_dead :: bool

record ObjectFile =
  sections :: "isec_ptr option list"
  symbols :: "sym_ptr list"

text \<open>
  The state of the link: \<^verbatim>\<open>out::objs\<close>, and the stores that the section and symbol
  pointers index.
\<close>

record Context =
  objs :: "ObjectFile list"
  isecs :: "isec_ptr \<Rightarrow> InputSection"
  syms :: "sym_ptr \<Rightarrow> Symbol"

text \<open>A loop over a list whose body may fail; the first failure ends it.\<close>

fun fold_opt :: "('a \<Rightarrow> 's \<Rightarrow> 's option) \<Rightarrow> 'a list \<Rightarrow> 's \<Rightarrow> 's option" where
  "fold_opt f [] s = Some s"
| "fold_opt f (x # xs) s = (case f x s of None \<Rightarrow> None | Some s' \<Rightarrow> fold_opt f xs s')"

subsection \<open>Eligibility and leaves\<close>

text \<open>The constants of \<^verbatim>\<open>elf.h\<close>.\<close>

definition SHF_WRITE :: u64 where "SHF_WRITE = 1"
definition SHF_ALLOC :: u64 where "SHF_ALLOC = 2"
definition SHF_EXECINSTR :: u64 where "SHF_EXECINSTR = 4"
definition SHT_NOBITS :: u32 where "SHT_NOBITS = 8"
definition SHT_INIT_ARRAY :: u32 where "SHT_INIT_ARRAY = 14"
definition SHT_FINI_ARRAY :: u32 where "SHT_FINI_ARRAY = 15"

text \<open>
  Modelled from the spec: \<^verbatim>\<open>is_c_identifier\<close> is defined outside the sources at hand; a
  valid C identifier is a letter or an underscore followed by letters, digits and
  underscores.
\<close>

definition is_c_alpha :: "char \<Rightarrow> bool" where
  "is_c_alpha c =
     (let n = (of_char c :: nat)
      in (97 \<le> n \<and> n \<le> 122) \<or> (65 \<le> n \<and> n \<le> 90) \<or> n = 95)"

definition is_c_digit :: "char \<Rightarrow> bool" where
  "is_c_digit c = (let n = (of_char c :: nat) in 48 \<le> n \<and> n \<le> 57)"

fun is_c_identifier :: "string \<Rightarrow> bool" where
  "is_c_identifier [] = False"
| "is_c_identifier (c # cs) =
     (is_c_alpha c \<and> list_all (\<lambda>x. is_c_alpha x \<or> is_c_digit x) cs)"

definition is_eligible :: "InputSection \<Rightarrow> bool" where
  "is_eligible isec =
     (let is_alloc = (sh_flags (shdr isec) AND SHF_ALLOC \<noteq> 0);
          is_executable = (sh_flags (shdr isec) AND SHF_EXECINSTR \<noteq> 0);
          is_writable = (sh_flags (shdr isec) AND SHF_WRITE \<noteq> 0);
          is_bss = (sh_type (shdr isec) = SHT_NOBITS);
          is_init = (sh_type (shdr isec) = SHT_INIT_ARRAY \<or> name isec = ''.init'');
          is_fini = (sh_type (shdr isec) = SHT_FINI_ARRAY \<or> name isec = ''.fini'');
          is_enumerable = is_c_identifier (name isec)
      in is_alloc \<and> is_executable \<and> \<not> is_writable \<and> \<not> is_bss \<and>
         \<not> is_init \<and> \<not> is_fini \<and> \<not> is_enumerable)"

definition is_leaf :: "InputSection \<Rightarrow> bool" where
  "is_leaf isec =
     (if rels isec \<noteq> [] then False
      else list_all (\<lambda>fde. \<not> 1 < length (fde_rels fde)) (fdes isec))"

text \<open>
  \<^verbatim>\<open>LeafHasher\<close>.  The hash of a string (\<^verbatim>\<open>std::hash<std::string_view>\<close>) is a
  parameter.  \<^verbatim>\<open>substr(8)\<close> throws when the string has fewer than 8 bytes.
\<close>

fun LeafHasher_fdes :: "(u8 list \<Rightarrow> u64) \<Rightarrow> FdeRecord list \<Rightarrow> u64 \<Rightarrow> u64 option" where
  "LeafHasher_fdes std_hash [] h = Some h"
| "LeafHasher_fdes std_hash (fde # rest) h =
     (if length (fde_contents fde) < 8 then None
      else (let h2 = std_hash (drop 8 (fde_contents fde))
            in LeafHasher_fdes std_hash rest
                 (h XOR (h2 + 0x9e3779b9 + push_bit 6 h + drop_bit 2 h))))"

definition LeafHasher :: "(u8 list \<Rightarrow> u64) \<Rightarrow> InputSection \<Rightarrow> u64 option" where
  "LeafHasher std_hash isec = LeafHasher_fdes std_hash (fdes isec) (std_hash (contents isec))"

text \<open>
  \<^verbatim>\<open>LeafEq\<close>.  The table hashes a key before it compares it, so \<^verbatim>\<open>LeafEq\<close> only
  sees sections whose FDE records have 8 bytes or more, where \<^verbatim>\<open>substr(8)\<close> drops the
  first 8 bytes.
\<close>

definition LeafEq :: "InputSection \<Rightarrow> InputSection \<Rightarrow> bool" where
  "LeafEq a b =
     (if contents a \<noteq> contents b then False
      else if length (fdes a) \<noteq> length (fdes b) then False
      else list_all
             (\<lambda>i. length (fde_contents (fdes a ! i)) = length (fde_contents (fdes b ! i)) \<and>
                  drop 8 (fde_contents (fdes a ! i)) = drop 8 (fde_contents (fdes b ! i)))
             [0..<length (fdes a)])"

subsection \<open>The leaf table\<close>

text \<open>
  The concurrent hash table of the leaf pass, keyed by \<^verbatim>\<open>LeafHasher\<close> and
  \<^verbatim>\<open>LeafEq\<close>, as the list of its entries (key, value).  A lookup hashes the key (which
  may throw) and returns the entry whose key is equal under \<^verbatim>\<open>LeafEq\<close>, if there is
  one; equal keys have equal hashes.  The definitions of this section are the run of the
  parallel loops in which no thread is interrupted and the files are taken in their order;
  the runs in which the threads of the first loop take turns are below, under
  \<open>leaf_run\<close>.
\<close>

type_synonym leaf_map = "(isec_ptr \<times> isec_ptr) list"

definition leaf_map_find ::
  "(u8 list \<Rightarrow> u64) \<Rightarrow> (isec_ptr \<Rightarrow> InputSection) \<Rightarrow> leaf_map \<Rightarrow> isec_ptr \<Rightarrow>
   (isec_ptr \<times> isec_ptr) option option" where
  "leaf_map_find std_hash h m p =
     (case LeafHasher std_hash (h p) of
        None \<Rightarrow> None
      | Some _ \<Rightarrow> Some (find (\<lambda>(k, v). LeafEq (h k) (h p)) m))"

text \<open>
  \<^verbatim>\<open>auto [it, inserted] = map.insert({isec, isec});
  if (!inserted && isec->get_priority() < it->second->get_priority())
    it->second = isec;\<close>
\<close>

definition leaf_map_insert ::
  "(u8 list \<Rightarrow> u64) \<Rightarrow> (isec_ptr \<Rightarrow> InputSection) \<Rightarrow> leaf_map \<Rightarrow> isec_ptr \<Rightarrow>
   leaf_map option" where
  "leaf_map_insert std_hash h m p =
     (case leaf_map_find std_hash h m p of
        None \<Rightarrow> None
      | Some None \<Rightarrow> Some (m @ [(p, p)])
      | Some (Some (k, v)) \<Rightarrow>
          (if sint (get_priority (h p)) < sint (get_priority (h v))
           then Some (map (\<lambda>(k', v'). if k' = k then (k', p) else (k', v')) m)
           else Some m))"

definition leaf_visit ::
  "(u8 list \<Rightarrow> u64) \<Rightarrow> isec_ptr option \<Rightarrow> (isec_ptr \<Rightarrow> InputSection) \<times> leaf_map \<Rightarrow>
   ((isec_ptr \<Rightarrow> InputSection) \<times> leaf_map) option" where
  "leaf_visit std_hash isec st =
     (case st of (h, m) \<Rightarrow>
        (case isec of
           None \<Rightarrow> Some (h, m)
         | Some p \<Rightarrow>
             (if \<not> is_eligible (h p) then Some (h, m)
              else if is_leaf (h p)
              then (let h' = h(p := (h p)\<lparr>icf_leaf := True\<rparr>)
                    in map_option (\<lambda>m'. (h', m')) (leaf_map_insert std_hash h' m p))
              else Some (h(p := (h p)\<lparr>icf_eligible := True\<rparr>), m))))"

text \<open>
  \<^verbatim>\<open>auto it = map.find(isec); assert(it != map.end()); isec->leader = it->second;\<close>
\<close>

definition leaf_assign ::
  "(u8 list \<Rightarrow> u64) \<Rightarrow> leaf_map \<Rightarrow> isec_ptr option \<Rightarrow> (isec_ptr \<Rightarrow> InputSection) \<Rightarrow>
   (isec_ptr \<Rightarrow> InputSection) option" where
  "leaf_assign std_hash m isec h =
     (case isec of
        None \<Rightarrow> Some h
      | Some p \<Rightarrow>
          (if \<not> icf_leaf (h p) then Some h
           else (case leaf_map_find std_hash h m p of
                   None \<Rightarrow> None
                 | Some None \<Rightarrow> None
                 | Some (Some (k, v)) \<Rightarrow> Some (h(p := (h p)\<lparr>leader := Some v\<rparr>)))))"

definition leaf_pass :: "(u8 list \<Rightarrow> u64) \<Rightarrow> Context \<Rightarrow> Context option" where
  "leaf_pass std_hash ctx =
     (case fold_opt (\<lambda>f. fold_opt (leaf_visit std_hash) (sections f)) (objs ctx)
             (isecs ctx, []) of
        None \<Rightarrow> None
      | Some (h1, m) \<Rightarrow>
          (case fold_opt (\<lambda>f. fold_opt (leaf_assign std_hash m) (sections f)) (objs ctx) h1 of
             None \<Rightarrow> None
           | Some h2 \<Rightarrow> Some (ctx\<lparr>isecs := h2\<rparr>)))"

subsection \<open>The section enumerator\<close>

text \<open>
  \<^verbatim>\<open>gather_sections\<close>.  The bound of the prefix-sum loop, \<^verbatim>\<open>out::objs.size() - 1\<close>, is
  computed in the unsigned 64-bit type of \<^verbatim>\<open>size()\<close>, and the signed counter is
  converted to that type for the comparison.  The counts themselves never leave the range
  of their 64-bit type and are natural numbers here.
\<close>

definition eligible_ptr :: "(isec_ptr \<Rightarrow> InputSection) \<Rightarrow> isec_ptr option \<Rightarrow> bool" where
  "eligible_ptr h isec = (case isec of None \<Rightarrow> False | Some p \<Rightarrow> icf_eligible (h p))"

function section_indices_loop :: "nat \<Rightarrow> nat \<Rightarrow> nat list \<Rightarrow> nat list \<Rightarrow> nat list option" where
  "section_indices_loop i n num_sections section_indices =
     (if (word_of_nat i :: u64) < word_of_nat n - 1
      then (if i + 1 < length section_indices \<and> i < length num_sections
            then section_indices_loop (i + 1) n num_sections
                   (section_indices[i + 1 := section_indices ! i + num_sections ! i])
            else None)
      else Some section_indices)"
  by pat_completeness auto
termination
  by (relation "measure (\<lambda>(i, n, num_sections, section_indices). length section_indices - i)")
    auto

declare section_indices_loop.simps [simp del]

text \<open>
  \<^verbatim>\<open>i64 idx = section_indices[i];
  for (InputSection *isec : out::objs[i]->sections)
    if (isec && isec->icf_eligible)
      sections[idx++] = isec;\<close>
\<close>

fun fill_sections ::
  "(isec_ptr \<Rightarrow> InputSection) \<Rightarrow> isec_ptr option list \<Rightarrow> nat \<Rightarrow> isec_ptr option list \<Rightarrow>
   isec_ptr option list option" where
  "fill_sections h [] idx secs = Some secs"
| "fill_sections h (isec # rest) idx secs =
     (if eligible_ptr h isec
      then (if idx < length secs then fill_sections h rest (idx + 1) (secs[idx := isec])
            else None)
      else fill_sections h rest idx secs)"

fun fill_files ::
  "(isec_ptr \<Rightarrow> InputSection) \<Rightarrow> ObjectFile list \<Rightarrow> nat list \<Rightarrow> nat \<Rightarrow>
   isec_ptr option list \<Rightarrow> isec_ptr option list option" where
  "fill_files h [] section_indices i secs = Some secs"
| "fill_files h (f # fs) section_indices i secs =
     (if i < length section_indices
      then (case fill_sections h (sections f) (section_indices ! i) secs of
              None \<Rightarrow> None
            | Some secs' \<Rightarrow> fill_files h fs section_indices (i + 1) secs')
      else None)"

text \<open>\<^verbatim>\<open>sections[i]->icf_idx = i\<close>, for every index of the vector.\<close>

fun assign_icf_idx ::
  "isec_ptr option list \<Rightarrow> nat \<Rightarrow> (isec_ptr \<Rightarrow> InputSection) \<Rightarrow>
   (isec_ptr \<Rightarrow> InputSection) option" where
  "assign_icf_idx [] i h = Some h"
| "assign_icf_idx (None # rest) i h = None"
| "assign_icf_idx (Some p # rest) i h =
     assign_icf_idx rest (i + 1) (h(p := (h p)\<lparr>icf_idx := i\<rparr>))"

definition gather_sections :: "Context \<Rightarrow> (Context \<times> isec_ptr list) option" where
  "gather_sections ctx =
     (let n = length (objs ctx);
          num_sections = map (\<lambda>f. length (filter (eligible_ptr (isecs ctx)) (sections f)))
                           (objs ctx)
      in case section_indices_loop 0 n num_sections (replicate n 0) of
           None \<Rightarrow> None
         | Some section_indices \<Rightarrow>
             (if section_indices = [] \<or> num_sections = [] then None
              else (case fill_files (isecs ctx) (objs ctx) section_indices 0
                           (replicate (last section_indices + last num_sections) None) of
                      None \<Rightarrow> None
                    | Some secs \<Rightarrow>
                        (case assign_icf_idx secs 0 (isecs ctx) of
                           None \<Rightarrow> None
                         | Some h \<Rightarrow> Some (ctx\<lparr>isecs := h\<rparr>, map the secs)))))"

subsection \<open>The initial digest\<close>

text \<open>
  \<^verbatim>\<open>hash_i64\<close> absorbs the 8 bytes of its argument as they lie in memory, the least
  significant byte first; \<^verbatim>\<open>hash_string\<close> absorbs the length and then the bytes.
\<close>

definition i64_bytes :: "i64 \<Rightarrow> u8 list" where
  "i64_bytes val = map (\<lambda>k. ucast (drop_bit (8 * k) val)) [0..<8]"

definition hash_i64 :: "i64 \<Rightarrow> SHA256_CTX \<Rightarrow> SHA256_CTX" where
  "hash_i64 val ctx = SHA256_Update ctx (i64_bytes val)"

definition hash_string :: "u8 list \<Rightarrow> SHA256_CTX \<Rightarrow> SHA256_CTX" where
  "hash_string str ctx = SHA256_Update (hash_i64 (word_of_nat (length str)) ctx) str"

definition hash_symbol :: "Context \<Rightarrow> Symbol \<Rightarrow> SHA256_CTX \<Rightarrow> SHA256_CTX" where
  "hash_symbol c symb ctx =
     hash_i64 (sym_value symb)
       (case sym_frag symb of
          Some fragment \<Rightarrow> hash_string (data fragment) (hash_i64 2 ctx)
        | None \<Rightarrow>
            (case input_section symb of
               None \<Rightarrow> hash_i64 3 ctx
             | Some isec \<Rightarrow>
                 (case leader (isecs c isec) of
                    Some l \<Rightarrow> hash_i64 (get_priority (isecs c l)) (hash_i64 4 ctx)
                  | None \<Rightarrow>
                      (if icf_eligible (isecs c isec) then hash_i64 5 ctx
                       else hash_i64 (get_priority (isecs c isec)) (hash_i64 6 ctx)))))"

text \<open>
  The relocations of an FDE after the first one:
  \<^verbatim>\<open>for (EhReloc &rel : std::span(fde.rels).subspan(1))\<close>.  \<^verbatim>\<open>subspan(1)\<close> of an empty
  span is undefined.
\<close>

fun hash_eh_rels :: "Context \<Rightarrow> EhReloc list \<Rightarrow> SHA256_CTX \<Rightarrow> SHA256_CTX" where
  "hash_eh_rels c [] ctx = ctx"
| "hash_eh_rels c (rel # rest) ctx =
     hash_eh_rels c rest
       (hash_i64 (eh_addend rel) (hash_i64 (eh_offset rel) (hash_i64 (eh_type rel)
          (hash_symbol c (syms c (eh_sym rel)) ctx))))"

fun hash_fdes :: "Context \<Rightarrow> FdeRecord list \<Rightarrow> SHA256_CTX \<Rightarrow> SHA256_CTX option" where
  "hash_fdes c [] ctx = Some ctx"
| "hash_fdes c (fde # rest) ctx =
     (if length (fde_contents fde) < 8 \<or> fde_rels fde = [] then None
      else hash_fdes c rest
             (hash_eh_rels c (tl (fde_rels fde))
                (hash_i64 (word_of_nat (length (fde_rels fde)))
                   (hash_string (drop 8 (fde_contents fde)) ctx))))"

text \<open>
  The loop over the section's relocations, with its counter \<^verbatim>\<open>ref_idx\<close> into
  \<^verbatim>\<open>rel_fragments\<close>.  An index out of range is undefined.
\<close>

function hash_rels ::
  "Context \<Rightarrow> InputSection \<Rightarrow> nat \<Rightarrow> nat \<Rightarrow> SHA256_CTX \<Rightarrow> SHA256_CTX option" where
  "hash_rels c isec i ref_idx ctx =
     (if i < length (rels isec)
      then (let rel = rels isec ! i;
                ctx1 = hash_i64 (r_addend rel) (hash_i64 (r_type rel)
                         (hash_i64 (r_offset rel) ctx))
            in if i < length (has_fragments isec)
               then (if has_fragments isec ! i
                     then (if ref_idx < length (rel_fragments isec)
                           then (let ref = rel_fragments isec ! ref_idx
                                 in hash_rels c isec (i + 1) (ref_idx + 1)
                                      (hash_string (data (frag ref))
                                         (hash_i64 (addend ref) (hash_i64 1 ctx1))))
                           else None)
                     else (if isec_file isec < length (objs c) \<and>
                              r_sym rel < length (symbols (objs c ! isec_file isec))
                           then hash_rels c isec (i + 1) ref_idx
                                  (hash_symbol c
                                     (syms c (symbols (objs c ! isec_file isec) ! r_sym rel))
                                     ctx1)
                           else None))
               else None)
      else Some ctx)"
  by pat_completeness auto
termination
  by (relation "measure (\<lambda>(c, isec, i, ref_idx, ctx). length (rels isec) - i)") auto

declare hash_rels.simps [simp del]

definition compute_digest_input :: "Context \<Rightarrow> InputSection \<Rightarrow> SHA256_CTX option" where
  "compute_digest_input c isec =
     (let ctx = SHA256_Init;
          ctx = hash_string (contents isec) ctx;
          ctx = hash_i64 (sh_flags (shdr isec)) ctx;
          ctx = hash_i64 (word_of_nat (length (fdes isec))) ctx;
          ctx = hash_i64 (word_of_nat (length (rels isec))) ctx
      in case hash_fdes c (fdes isec) ctx of
           None \<Rightarrow> None
         | Some ctx \<Rightarrow> hash_rels c isec 0 0 ctx)"

definition compute_digest ::
  "(u8 list \<Rightarrow> 256 word) \<Rightarrow> Context \<Rightarrow> InputSection \<Rightarrow> Digest option" where
  "compute_digest sha256 c isec = map_option (digest_final sha256) (compute_digest_input c isec)"

fun compute_digests ::
  "(u8 list \<Rightarrow> 256 word) \<Rightarrow> Context \<Rightarrow> isec_ptr list \<Rightarrow> Digest list option" where
  "compute_digests sha256 c [] = Some []"
| "compute_digests sha256 c (p # ps) =
     (case compute_digest sha256 c (isecs c p) of
        None \<Rightarrow> None
      | Some d \<Rightarrow> map_option ((#) d) (compute_digests sha256 c ps))"

subsection \<open>The edge builder\<close>

text \<open>
  The test that both loops of \<^verbatim>\<open>gather_edges\<close> apply to relocation \<open>j\<close> of a section:
  \<^verbatim>\<open>if (!isec.has_fragments[j]) {
    ElfRela &rel = isec.rels[j];
    Symbol &sym = *isec.file->symbols[rel.r_sym];
    if (!sym.frag && sym.input_section && sym.input_section->icf_eligible) ...\<close>
  The result is the section that the edge leads to, if the relocation is an edge.
\<close>

definition edge_target :: "Context \<Rightarrow> InputSection \<Rightarrow> nat \<Rightarrow> isec_ptr option option" where
  "edge_target c isec j =
     (if j < length (has_fragments isec)
      then (if \<not> has_fragments isec ! j
            then (let rel = rels isec ! j
                  in if isec_file isec < length (objs c) \<and>
                        r_sym rel < length (symbols (objs c ! isec_file isec))
                     then (let symb = syms c (symbols (objs c ! isec_file isec) ! r_sym rel)
                           in case input_section symb of
                                None \<Rightarrow> Some None
                              | Some t \<Rightarrow>
                                  (if sym_frag symb = None \<and> icf_eligible (isecs c t)
                                   then Some (Some t) else Some None))
                     else None)
            else Some None)
      else None)"

function count_edges :: "Context \<Rightarrow> InputSection \<Rightarrow> nat \<Rightarrow> nat \<Rightarrow> nat option" where
  "count_edges c isec j num =
     (if j < length (rels isec)
      then (case edge_target c isec j of
              None \<Rightarrow> None
            | Some None \<Rightarrow> count_edges c isec (j + 1) num
            | Some (Some t) \<Rightarrow> count_edges c isec (j + 1) (num + 1))
      else Some num)"
  by pat_completeness auto
termination
  by (relation "measure (\<lambda>(c, isec, j, num). length (rels isec) - j)") auto

declare count_edges.simps [simp del]

function fill_edges ::
  "Context \<Rightarrow> InputSection \<Rightarrow> nat \<Rightarrow> nat \<Rightarrow> u32 list \<Rightarrow> u32 list option" where
  "fill_edges c isec j idx edges =
     (if j < length (rels isec)
      then (case edge_target c isec j of
              None \<Rightarrow> None
            | Some None \<Rightarrow> fill_edges c isec (j + 1) idx edges
            | Some (Some t) \<Rightarrow>
                (if idx < length edges
                 then fill_edges c isec (j + 1) (idx + 1)
                        (edges[idx := word_of_nat (icf_idx (isecs c t))])
                 else None))
      else Some edges)"
  by pat_completeness auto
termination
  by (relation "measure (\<lambda>(c, isec, j, idx, edges). length (rels isec) - j)") auto

declare fill_edges.simps [simp del]

fun count_all_edges :: "Context \<Rightarrow> isec_ptr list \<Rightarrow> nat list option" where
  "count_all_edges c [] = Some []"
| "count_all_edges c (p # ps) =
     (case count_edges c (isecs c p) 0 0 of
        None \<Rightarrow> None
      | Some num \<Rightarrow> map_option ((#) num) (count_all_edges c ps))"

text \<open>
  \<^verbatim>\<open>for (i64 i = 0; i < num_edges.size() - 1; i++)
    edge_indices[i + 1] = edge_indices[i] + num_edges[i];\<close>
  The bound is unsigned, as in the section enumerator; the sum is truncated to the 32 bits of
  an element of \<^verbatim>\<open>edge_indices\<close>.
\<close>

function edge_indices_loop :: "nat \<Rightarrow> nat list \<Rightarrow> u32 list \<Rightarrow> u32 list option" where
  "edge_indices_loop i num_edges edge_indices =
     (if (word_of_nat i :: u64) < word_of_nat (length num_edges) - 1
      then (if i + 1 < length edge_indices \<and> i < length num_edges
            then edge_indices_loop (i + 1) num_edges
                   (edge_indices[i + 1 :=
                      word_of_nat (unat (edge_indices ! i) + num_edges ! i)])
            else None)
      else Some edge_indices)"
  by pat_completeness auto
termination
  by (relation "measure (\<lambda>(i, num_edges, edge_indices). length edge_indices - i)") auto

declare edge_indices_loop.simps [simp del]

fun fill_all_edges ::
  "Context \<Rightarrow> isec_ptr list \<Rightarrow> u32 list \<Rightarrow> nat \<Rightarrow> u32 list \<Rightarrow> u32 list option" where
  "fill_all_edges c [] edge_indices i edges = Some edges"
| "fill_all_edges c (p # ps) edge_indices i edges =
     (if i < length edge_indices
      then (case fill_edges c (isecs c p) 0 (unat (edge_indices ! i)) edges of
              None \<Rightarrow> None
            | Some edges' \<Rightarrow> fill_all_edges c ps edge_indices (i + 1) edges')
      else None)"

text \<open>
  \<^verbatim>\<open>gather_edges\<close> returns the arrays \<open>edges\<close> and \<open>edge_indices\<close>.  \<^verbatim>\<open>back()\<close> of an
  empty vector is undefined.
\<close>

definition gather_edges :: "Context \<Rightarrow> isec_ptr list \<Rightarrow> (u32 list \<times> u32 list) option" where
  "gather_edges c secs =
     (case count_all_edges c secs of
        None \<Rightarrow> None
      | Some num_edges \<Rightarrow>
          (case edge_indices_loop 0 num_edges (replicate (length secs) 0) of
             None \<Rightarrow> None
           | Some edge_indices \<Rightarrow>
               (if edge_indices = [] \<or> num_edges = [] then None
                else (case fill_all_edges c secs edge_indices 0
                             (replicate (unat (last edge_indices) + last num_edges) 0) of
                        None \<Rightarrow> None
                      | Some edges \<Rightarrow> Some (edges, edge_indices)))))"

subsection \<open>Classes, leaders and the commit\<close>

text \<open>
  The sort of the participants by (digest, priority).  The order of the digests, arrays of
  16 bytes compared byte by byte, is the order of the 128-bit numbers that hold them.
\<close>

definition sort_sections ::
  "(isec_ptr \<Rightarrow> InputSection) \<Rightarrow> Digest list \<Rightarrow> isec_ptr list \<Rightarrow> isec_ptr list" where
  "sort_sections h digest secs =
     sort_key (\<lambda>p. (digest ! icf_idx (h p), sint (get_priority (h p)))) secs"

text \<open>
  \<^verbatim>\<open>i64 j = i + 1;
  while (j < sections.size() && digest[sections[i]->icf_idx] == digest[sections[j]->icf_idx])
    sections[j++]->leader = sections[i];\<close>
\<close>

function assign_run ::
  "Digest list \<Rightarrow> isec_ptr list \<Rightarrow> nat \<Rightarrow> nat \<Rightarrow> (isec_ptr \<Rightarrow> InputSection) \<Rightarrow>
   (isec_ptr \<Rightarrow> InputSection)" where
  "assign_run digest secs i j h =
     (if j < length secs \<and>
         digest ! icf_idx (h (secs ! i)) = digest ! icf_idx (h (secs ! j))
      then assign_run digest secs i (j + 1)
             (h(secs ! j := (h (secs ! j))\<lparr>leader := Some (secs ! i)\<rparr>))
      else h)"
  by pat_completeness auto
termination
  by (relation "measure (\<lambda>(digest, secs, i, j, h). length secs - j)") auto

declare assign_run.simps [simp del]

text \<open>The body of the loop over the indices \<open>i\<close> of the sorted vector.\<close>

definition elect_at ::
  "Digest list \<Rightarrow> isec_ptr list \<Rightarrow> nat \<Rightarrow> (isec_ptr \<Rightarrow> InputSection) \<Rightarrow>
   (isec_ptr \<Rightarrow> InputSection)" where
  "elect_at digest secs i h =
     (if i = 0 \<or> digest ! icf_idx (h (secs ! (i - 1))) \<noteq> digest ! icf_idx (h (secs ! i))
      then assign_run digest secs i (i + 1)
             (h(secs ! i := (h (secs ! i))\<lparr>leader := Some (secs ! i)\<rparr>))
      else h)"

text \<open>
  \<^verbatim>\<open>tbb::parallel_for((i64)0, (i64)sections.size() - 1, ...)\<close>: the indices from 0 up to,
  and not including, \<open>size - 1\<close>; there is none when the vector is empty.
\<close>

definition elect_leaders ::
  "Digest list \<Rightarrow> isec_ptr list \<Rightarrow> (isec_ptr \<Rightarrow> InputSection) \<Rightarrow>
   (isec_ptr \<Rightarrow> InputSection)" where
  "elect_leaders digest secs h = fold (elect_at digest secs) [0..<length secs - 1] h"

text \<open>
  \<^verbatim>\<open>InputSection *isec = sym->input_section;
  if (isec && isec->leader && isec->leader != isec) {
    sym->input_section = isec->leader;
    isec->kill();
  }\<close>
\<close>

definition reassign_symbol :: "sym_ptr \<Rightarrow> Context \<Rightarrow> Context" where
  "reassign_symbol s c =
     (case input_section (syms c s) of
        None \<Rightarrow> c
      | Some isec \<Rightarrow>
          (case leader (isecs c isec) of
             None \<Rightarrow> c
           | Some l \<Rightarrow>
               (if l \<noteq> isec
                then c\<lparr>syms := (syms c)(s := (syms c s)\<lparr>input_section := Some l\<rparr>),
                       isecs := (isecs c)(isec := (isecs c isec)\<lparr>is_dead := True\<rparr>)\<rparr>
                else c)))"

definition reassign_symbols :: "Context \<Rightarrow> Context" where
  "reassign_symbols c = fold (\<lambda>f. fold reassign_symbol (symbols f)) (objs c) c"

subsection \<open>The pass\<close>

text \<open>
  \<^verbatim>\<open>icf_sections\<close>.  The loop of the propagation rounds has no bound in the source; here
  it has fuel, and the pass has no result when the fuel runs out.  The optional report
  changes nothing and is left out.
\<close>

definition icf_sections ::
  "nat \<Rightarrow> (u8 list \<Rightarrow> 256 word) \<Rightarrow> (u8 list \<Rightarrow> u64) \<Rightarrow> Context \<Rightarrow> Context option" where
  "icf_sections fuel sha256 std_hash c0 =
     (case leaf_pass std_hash c0 of
        None \<Rightarrow> None
      | Some c1 \<Rightarrow>
     (case gather_sections c1 of
        None \<Rightarrow> None
      | Some (c, secs) \<Rightarrow>
     (case compute_digests sha256 c secs of
        None \<Rightarrow> None
      | Some digests0 \<Rightarrow>
     (case gather_edges c secs of
        None \<Rightarrow> None
      | Some (edges, edge_indices) \<Rightarrow>
     (case propagation_rounds fuel sha256 edges edge_indices 0 (- 1)
             ([digests0, replicate (length digests0) 0], 0) of
        None \<Rightarrow> None
      | Some (digests, slot) \<Rightarrow>
          (let digest = digests ! slot;
               sorted = sort_sections (isecs c) digest secs;
               c' = c\<lparr>isecs := elect_leaders digest sorted (isecs c)\<rparr>
           in Some (reassign_symbols c')))))))"

subsection \<open>The input sections of a link\<close>

text \<open>The section pointers of all object files, in the order of the files.\<close>

definition input_sections :: "Context \<Rightarrow> isec_ptr option list" where
  "input_sections c = concat (map sections (objs c))"

subsection \<open>Example inputs\<close>

text \<open>
  A section \<^verbatim>\<open>.text.f\<close> of executable code with one relocation against a symbol, and a
  link of one object file that holds this section and an absolute symbol.
\<close>

definition example_section :: InputSection where
  "example_section =
     \<lparr>shdr = \<lparr>sh_flags = 6, sh_type = 1\<rparr>, name = ''.text.f'', contents = [144, 195],
      rels = [\<lparr>r_offset = 0, r_type = 2, r_sym = 0, r_addend = 0\<rparr>],
      has_fragments = [False], rel_fragments = [], fdes = [], isec_file = 0,
      get_priority = 0, icf_eligible = False, icf_leaf = False, icf_idx = 0,
      leader = None, is_dead = False\<rparr>"

definition example_context :: Context where
  "example_context =
     \<lparr>objs = [\<lparr>sections = [Some 0], symbols = [0]\<rparr>],
      isecs = (\<lambda>p. example_section),
      syms = (\<lambda>s. \<lparr>input_section = None, sym_frag = None, sym_value = 0\<rparr>)\<rparr>"

text \<open>
  A section \<^verbatim>\<open>.text.g\<close> with no relocation and one FDE record, and a link of two object
  files: the first holds the leaf 1 and the section 2 with its relocation, the second holds
  the leaf 0.  The leaves have the same bytes and the priorities 1 and 0.  Symbol 0, in the
  symbol table of both files, was resolved to section 0; symbol 1 is absolute.
\<close>

definition leaf_section :: InputSection where
  "leaf_section =
     \<lparr>shdr = \<lparr>sh_flags = 6, sh_type = 1\<rparr>, name = ''.text.g'', contents = [144, 195],
      rels = [], has_fragments = [], rel_fragments = [],
      fdes = [\<lparr>fde_contents = [20, 0, 0, 0, 28, 0, 0, 0, 1, 2],
               fde_rels = [\<lparr>eh_sym = 0, eh_type = 2, eh_offset = 8, eh_addend = 0\<rparr>]\<rparr>],
      isec_file = 0, get_priority = 0, icf_eligible = False, icf_leaf = False, icf_idx = 0,
      leader = None, is_dead = False\<rparr>"

definition leaf_context :: Context where
  "leaf_context =
     \<lparr>objs = [\<lparr>sections = [Some 1, Some 2], symbols = [0, 1]\<rparr>,
              \<lparr>sections = [Some 0], symbols = [0]\<rparr>],
      isecs = (\<lambda>p. if p = 2 then example_section
                    else leaf_section\<lparr>isec_file := 1 - p, get_priority := word_of_nat p\<rparr>),
      syms = (\<lambda>s. if s = 0 then \<lparr>input_section = Some 0, sym_frag = None, sym_value = 0\<rparr>
                   else \<lparr>input_section = None, sym_frag = None, sym_value = 0\<rparr>)\<rparr>"

text \<open>
  A state before the commit: section 1 was folded into section 0, and symbol 0 refers to
  section 1.
\<close>

definition folded_context :: Context where
  "folded_context =
     \<lparr>objs = [\<lparr>sections = [Some 0, Some 1], symbols = [0]\<rparr>],
      isecs = (\<lambda>p. leaf_section\<lparr>leader := Some 0\<rparr>),
      syms = (\<lambda>s. \<lparr>input_section = Some 1, sym_frag = None, sym_value = 0\<rparr>)\<rparr>"

subsection \<open>Notions for the proofs about the leaf pass\<close>

text \<open>
  \<^verbatim>\<open>LeafEq\<close> is the equality of \<open>leaf_key\<close>.  \<open>static_eq\<close> relates two states of a section
  that agree on everything but the members which the pass writes.  \<open>leaves_of h0 L\<close> are
  the eligible leaves among the pointers of \<open>L\<close>.  \<open>map_inv\<close> is the invariant of the leaf
  table once the leaves \<open>A\<close> were inserted: keys and values are such leaves, every such
  leaf has an entry with an equal key whose value is equal to it and has the least priority
  among its equals, and no two keys are equal.  \<open>visit_inv\<close> and \<open>assign_inv\<close> are the
  invariants of the two loops of the leaf pass after the pointers \<open>L\<close>.
\<close>

definition leaf_key :: "InputSection \<Rightarrow> u8 list \<times> (nat \<times> u8 list) list" where
  "leaf_key isec =
     (contents isec, map (\<lambda>fde. (length (fde_contents fde), drop 8 (fde_contents fde))) (fdes isec))"

definition static_eq :: "InputSection \<Rightarrow> InputSection \<Rightarrow> bool" where
  "static_eq a b \<longleftrightarrow>
     shdr a = shdr b \<and> name a = name b \<and> contents a = contents b \<and> rels a = rels b \<and>
     fdes a = fdes b \<and> get_priority a = get_priority b"

definition leaves_of :: "(isec_ptr \<Rightarrow> InputSection) \<Rightarrow> isec_ptr option list \<Rightarrow> isec_ptr set" where
  "leaves_of h0 L = {q. Some q \<in> set L \<and> is_eligible (h0 q) \<and> is_leaf (h0 q)}"

definition map_inv ::
  "(u8 list \<Rightarrow> u64) \<Rightarrow> (isec_ptr \<Rightarrow> InputSection) \<Rightarrow> isec_ptr set \<Rightarrow> leaf_map \<Rightarrow> bool" where
  "map_inv std_hash h0 A m \<longleftrightarrow>
     (\<forall>(k, v) \<in> set m. k \<in> A \<and> v \<in> A \<and> leaf_key (h0 k) = leaf_key (h0 v)) \<and>
     (\<forall>p \<in> A. \<exists>(k, v) \<in> set m. leaf_key (h0 k) = leaf_key (h0 p)) \<and>
     (\<forall>(k, v) \<in> set m. \<forall>p \<in> A. leaf_key (h0 k) = leaf_key (h0 p) \<longrightarrow>
        sint (get_priority (h0 v)) \<le> sint (get_priority (h0 p))) \<and>
     (\<forall>p \<in> A. LeafHasher std_hash (h0 p) \<noteq> None) \<and>
     distinct (map (\<lambda>kv. leaf_key (h0 (fst kv))) m)"

definition visit_inv ::
  "(u8 list \<Rightarrow> u64) \<Rightarrow> (isec_ptr \<Rightarrow> InputSection) \<Rightarrow> isec_ptr option list \<Rightarrow>
   (isec_ptr \<Rightarrow> InputSection) \<times> leaf_map \<Rightarrow> bool" where
  "visit_inv std_hash h0 L st \<longleftrightarrow>
     (\<forall>q. static_eq (fst st q) (h0 q) \<and> leader (fst st q) = leader (h0 q) \<and>
          icf_leaf (fst st q) = (icf_leaf (h0 q) \<or> q \<in> leaves_of h0 L) \<and>
          icf_eligible (fst st q) =
            (icf_eligible (h0 q) \<or> (Some q \<in> set L \<and> is_eligible (h0 q) \<and> \<not> is_leaf (h0 q)))) \<and>
     map_inv std_hash h0 (leaves_of h0 L) (snd st)"

definition assign_inv ::
  "(isec_ptr \<Rightarrow> InputSection) \<Rightarrow> (isec_ptr \<Rightarrow> InputSection) \<Rightarrow> leaf_map \<Rightarrow>
   isec_ptr option list \<Rightarrow> (isec_ptr \<Rightarrow> InputSection) \<Rightarrow> bool" where
  "assign_inv h0 h1 m L h \<longleftrightarrow>
     (\<forall>q. static_eq (h q) (h0 q) \<and> icf_leaf (h q) = icf_leaf (h1 q) \<and>
          icf_eligible (h q) = icf_eligible (h1 q) \<and>
          leader (h q) =
            (if Some q \<in> set L \<and> icf_leaf (h1 q)
             then map_option snd (find (\<lambda>(k, v). leaf_key (h0 k) = leaf_key (h0 q)) m)
             else leader (h1 q)))"

subsection \<open>What the initial digest absorbs, in the words of the specification\<close>

text \<open>
  The bytes that the specification lists for one relocation of a section.  A string is
  absorbed as its length followed by its bytes.  The fingerprint of a symbol is tag 2 and
  the fragment's bytes if the symbol resolves to a fragment; tag 3 if it has no section;
  tag 4 and the priority of the leader if its section has a leader; tag 5 and nothing else
  if its section is an eligible participant; tag 6 and the priority of its section
  otherwise; and then, in every case, the value of the symbol.  A relocation is absorbed as
  offset, type and addend, followed by tag 1, the addend and the bytes of the fragment if
  it refers to a fragment (the next one of \<open>rel_fragments\<close>), and by the
  fingerprint of its symbol otherwise.  \<open>digest_prefix\<close> is what \<^verbatim>\<open>compute_digest\<close> has
  absorbed when it reaches the loop over the relocations.
\<close>

definition string_bytes :: "u8 list \<Rightarrow> u8 list" where
  "string_bytes str = i64_bytes (word_of_nat (length str)) @ str"

definition spec_symbol_fingerprint :: "Context \<Rightarrow> Symbol \<Rightarrow> u8 list" where
  "spec_symbol_fingerprint c symb =
     (if sym_frag symb \<noteq> None
      then i64_bytes 2 @ string_bytes (data (the (sym_frag symb)))
      else if input_section symb = None
      then i64_bytes 3
      else if leader (isecs c (the (input_section symb))) \<noteq> None
      then i64_bytes 4 @
           i64_bytes (get_priority (isecs c (the (leader (isecs c (the (input_section symb)))))))
      else if icf_eligible (isecs c (the (input_section symb)))
      then i64_bytes 5
      else i64_bytes 6 @ i64_bytes (get_priority (isecs c (the (input_section symb)))))
     @ i64_bytes (sym_value symb)"

definition fragments_before :: "InputSection \<Rightarrow> nat \<Rightarrow> nat" where
  "fragments_before isec i = length (filter id (take i (has_fragments isec)))"

definition spec_relocation_block :: "Context \<Rightarrow> InputSection \<Rightarrow> nat \<Rightarrow> u8 list" where
  "spec_relocation_block c isec i =
     i64_bytes (r_offset (rels isec ! i)) @ i64_bytes (r_type (rels isec ! i)) @
     i64_bytes (r_addend (rels isec ! i)) @
     (if has_fragments isec ! i
      then i64_bytes 1 @
           i64_bytes (addend (rel_fragments isec ! fragments_before isec i)) @
           string_bytes (data (frag (rel_fragments isec ! fragments_before isec i)))
      else spec_symbol_fingerprint c
             (syms c (symbols (objs c ! isec_file isec) ! r_sym (rels isec ! i))))"

definition digest_prefix :: "Context \<Rightarrow> InputSection \<Rightarrow> SHA256_CTX option" where
  "digest_prefix c isec =
     hash_fdes c (fdes isec)
       (hash_i64 (word_of_nat (length (rels isec)))
          (hash_i64 (word_of_nat (length (fdes isec)))
             (hash_i64 (sh_flags (shdr isec))
                (hash_string (contents isec) SHA256_Init))))"

text \<open>
  The condition under which no access of \<^verbatim>\<open>compute_digest\<close> is out of range: there is
  a flag in \<open>has_fragments\<close> for every relocation and a fragment in \<open>rel_fragments\<close> for
  every flag that is set, the symbol index of every other relocation is one of the
  section's file, and every FDE record has its 8 header bytes and a first relocation.
\<close>

definition digest_inputs_in_range :: "Context \<Rightarrow> InputSection \<Rightarrow> bool" where
  "digest_inputs_in_range c isec \<longleftrightarrow>
     length (rels isec) \<le> length (has_fragments isec) \<and>
     fragments_before isec (length (rels isec)) \<le> length (rel_fragments isec) \<and>
     (\<forall>i < length (rels isec). \<not> has_fragments isec ! i \<longrightarrow>
        isec_file isec < length (objs c) \<and>
        r_sym (rels isec ! i) < length (symbols (objs c ! isec_file isec))) \<and>
     (\<forall>fde \<in> set (fdes isec). 8 \<le> length (fde_contents fde) \<and> fde_rels fde \<noteq> [])"

subsection \<open>The leaf table under concurrent threads\<close>

text \<open>
  The first loop of the leaf pass runs under \<^verbatim>\<open>tbb::parallel_for\<close> over the files,
  and its table is shared by the threads.  The statement
  \<^verbatim>\<open>auto [it, inserted] = map.insert({isec, isec});
  if (!inserted && isec->get_priority() < it->second->get_priority())
    it->second = isec;\<close>
  is three accesses to the table: \<^verbatim>\<open>map.insert\<close>, one operation of the concurrent
  table; the test, which reads \<^verbatim>\<open>it->second\<close>; and the store to \<^verbatim>\<open>it->second\<close>.
  Nothing keeps another thread from running between them.  \<open>leaf_map_insert\<close> and
  \<open>leaf_pass\<close> above are the run in which no thread is interrupted and the files are
  taken in their order.  Here the three accesses are three steps, and a schedule chooses
  which thread takes the next step.

  The iterator \<^verbatim>\<open>it\<close> is the key pointer of the entry it refers to; entries are never
  removed.  \<open>leaf_table_insert\<close> returns the table and, when an equal key was there
  already, the key of that entry.
\<close>

definition leaf_table_insert ::
  "(u8 list \<Rightarrow> u64) \<Rightarrow> (isec_ptr \<Rightarrow> InputSection) \<Rightarrow> leaf_map \<Rightarrow> isec_ptr \<Rightarrow>
   (leaf_map \<times> isec_ptr option) option" where
  "leaf_table_insert std_hash h m p =
     (case leaf_map_find std_hash h m p of
        None \<Rightarrow> None
      | Some None \<Rightarrow> Some (m @ [(p, p)], None)
      | Some (Some (k, v)) \<Rightarrow> Some (m, Some k))"

definition leaf_table_store :: "leaf_map \<Rightarrow> isec_ptr \<Rightarrow> isec_ptr \<Rightarrow> leaf_map" where
  "leaf_table_store m k p = map (\<lambda>(k', v'). if k' = k then (k', p) else (k', v')) m"

text \<open>
  A thread of the loop: the sections of its file that it has not visited yet, and where it
  stands in the statement above for the section \<open>p\<close> it is visiting.  \<open>Testing p k\<close>: the
  insertion found the entry with key \<open>k\<close>, the test comes next.  \<open>Storing p k\<close>: the test
  was true, the store comes next.
\<close>

datatype leaf_pending = Idle | Testing isec_ptr isec_ptr | Storing isec_ptr isec_ptr

record leaf_thread =
  todo :: "isec_ptr option list"
  pending :: leaf_pending

text \<open>
  One step of a thread on the shared state.  A thread that is not inside the statement
  takes the next section of its file, as \<open>leaf_visit\<close> does up to \<^verbatim>\<open>map.insert\<close>.
\<close>

definition leaf_thread_step ::
  "(u8 list \<Rightarrow> u64) \<Rightarrow> leaf_thread \<Rightarrow> (isec_ptr \<Rightarrow> InputSection) \<times> leaf_map \<Rightarrow>
   (leaf_thread \<times> (isec_ptr \<Rightarrow> InputSection) \<times> leaf_map) option" where
  "leaf_thread_step std_hash t st =
     (case st of (h, m) \<Rightarrow>
        (case pending t of
           Testing p k \<Rightarrow>
             (case map_of m k of
                None \<Rightarrow> None
              | Some v \<Rightarrow>
                  (if sint (get_priority (h p)) < sint (get_priority (h v))
                   then Some (t\<lparr>pending := Storing p k\<rparr>, h, m)
                   else Some (t\<lparr>pending := Idle\<rparr>, h, m)))
         | Storing p k \<Rightarrow> Some (t\<lparr>pending := Idle\<rparr>, h, leaf_table_store m k p)
         | Idle \<Rightarrow>
             (case todo t of
                [] \<Rightarrow> Some (t, h, m)
              | isec # rest \<Rightarrow>
                  (case isec of
                     None \<Rightarrow> Some (t\<lparr>todo := rest\<rparr>, h, m)
                   | Some p \<Rightarrow>
                       (if \<not> is_eligible (h p) then Some (t\<lparr>todo := rest\<rparr>, h, m)
                        else if is_leaf (h p)
                        then (let h' = h(p := (h p)\<lparr>icf_leaf := True\<rparr>)
                              in (case leaf_table_insert std_hash h' m p of
                                    None \<Rightarrow> None
                                  | Some (m', None) \<Rightarrow> Some (t\<lparr>todo := rest\<rparr>, h', m')
                                  | Some (m', Some k) \<Rightarrow>
                                      Some (t\<lparr>todo := rest, pending := Testing p k\<rparr>, h', m')))
                        else Some (t\<lparr>todo := rest\<rparr>,
                                   h(p := (h p)\<lparr>icf_eligible := True\<rparr>), m))))))"

text \<open>
  A schedule is the list of the threads (the indices of their files) in the order in which
  they take their steps.
\<close>

fun leaf_run ::
  "(u8 list \<Rightarrow> u64) \<Rightarrow> nat list \<Rightarrow> leaf_thread list \<Rightarrow>
   (isec_ptr \<Rightarrow> InputSection) \<times> leaf_map \<Rightarrow>
   (leaf_thread list \<times> (isec_ptr \<Rightarrow> InputSection) \<times> leaf_map) option" where
  "leaf_run std_hash [] ts st = Some (ts, st)"
| "leaf_run std_hash (i # sched) ts st =
     (if i < length ts
      then (case leaf_thread_step std_hash (ts ! i) st of
              None \<Rightarrow> None
            | Some (t', st') \<Rightarrow> leaf_run std_hash sched (ts[i := t']) st')
      else None)"

definition leaf_threads :: "ObjectFile list \<Rightarrow> leaf_thread list" where
  "leaf_threads fs = map (\<lambda>f. \<lparr>todo = sections f, pending = Idle\<rparr>) fs"

definition leaf_finished :: "leaf_thread \<Rightarrow> bool" where
  "leaf_finished t \<longleftrightarrow> todo t = [] \<and> pending t = Idle"

text \<open>
  The leaf pass under a schedule.  \<^verbatim>\<open>parallel_for\<close> returns when every thread has
  finished, so a schedule that ends earlier is not a run of the loop and has no result.
  The second loop reads the table and writes the leader of the thread's own sections only:
  its result does not depend on the schedule.
\<close>

definition leaf_pass_scheduled ::
  "(u8 list \<Rightarrow> u64) \<Rightarrow> nat list \<Rightarrow> Context \<Rightarrow> Context option" where
  "leaf_pass_scheduled std_hash sched ctx =
     (case leaf_run std_hash sched (leaf_threads (objs ctx)) (isecs ctx, []) of
        None \<Rightarrow> None
      | Some (ts, h1, m) \<Rightarrow>
          (if list_all leaf_finished ts
           then (case fold_opt (\<lambda>f. fold_opt (leaf_assign std_hash m) (sections f))
                        (objs ctx) h1 of
                   None \<Rightarrow> None
                 | Some h2 \<Rightarrow> Some (ctx\<lparr>isecs := h2\<rparr>))
           else None))"

text \<open>The pass after the leaf pass, and the whole pass under a schedule of the leaf pass.\<close>

definition icf_after_leaf_pass ::
  "nat \<Rightarrow> (u8 list \<Rightarrow> 256 word) \<Rightarrow> Context \<Rightarrow> Context option" where
  "icf_after_leaf_pass fuel sha256 c1 =
     (case gather_sections c1 of
        None \<Rightarrow> None
      | Some (c, secs) \<Rightarrow>
     (case compute_digests sha256 c secs of
        None \<Rightarrow> None
      | Some digests0 \<Rightarrow>
     (case gather_edges c secs of
        None \<Rightarrow> None
      | Some (edges, edge_indices) \<Rightarrow>
     (case propagation_rounds fuel sha256 edges edge_indices 0 (- 1)
             ([digests0, replicate (length digests0) 0], 0) of
        None \<Rightarrow> None
      | Some (digests, slot) \<Rightarrow>
          (let digest = digests ! slot;
               sorted = sort_sections (isecs c) digest secs;
               c' = c\<lparr>isecs := elect_leaders digest sorted (isecs c)\<rparr>
           in Some (reassign_symbols c'))))))"

definition icf_sections_scheduled ::
  "nat \<Rightarrow> (u8 list \<Rightarrow> 256 word) \<Rightarrow> (u8 list \<Rightarrow> u64) \<Rightarrow> nat list \<Rightarrow> Context \<Rightarrow>
   Context option" where
  "icf_sections_scheduled fuel sha256 std_hash sched c0 =
     (case leaf_pass_scheduled std_hash sched c0 of
        None \<Rightarrow> None
      | Some c1 \<Rightarrow> icf_after_leaf_pass fuel sha256 c1)"

text \<open>
  A link of three object files.  Each holds a leaf \<^verbatim>\<open>.text.g\<close> with the same bytes and
  the same FDE record (the sections 0, 2 and 3, a static function with the same body in
  each file, with the symbols 0, 1 and 2); the first file also holds the section 1 with a
  relocation against symbol 0.  The priority of a section is its number, so the priorities
  grow with the files.
\<close>

definition racing_context :: Context where
  "racing_context =
     \<lparr>objs = [\<lparr>sections = [Some 0, Some 1], symbols = [0]\<rparr>,
              \<lparr>sections = [Some 2], symbols = [1]\<rparr>,
              \<lparr>sections = [Some 3], symbols = [2]\<rparr>],
      isecs = (\<lambda>p. if p = 1 then example_section\<lparr>get_priority := 1\<rparr>
                    else leaf_section\<lparr>isec_file := p - 1, get_priority := word_of_nat p\<rparr>),
      syms = (\<lambda>s. \<lparr>input_section = Some (if s = 0 then 0 else s + 1), sym_frag = None,
                    sym_value = 0\<rparr>)\<rparr>"

text \<open>
  A schedule of the three threads: the third thread inserts its leaf 3; the first and the
  second thread find it with their leaves 0 and 2; both test their priority against that
  of 3, which is still the value of the entry; the first thread stores 0, then the second
  stores 2; the first thread visits section 1.
\<close>

definition racing_schedule :: "nat list" where
  "racing_schedule = [2, 0, 1, 0, 1, 0, 1, 0]"

subsection \<open>Notions for the proofs about schedules\<close>

text \<open>
  What holds of the leaf table whatever the schedule is: \<open>table_inv\<close> is \<open>map_inv\<close>
  without the least priority of the value.  \<open>pending_inv\<close>: a thread that stands before
  its test or its store refers to an entry whose key is equal to its section.  \<open>run_inv\<close>
  is the invariant of the first loop under a schedule, where \<open>ds\<close> holds for every thread
  the sections it has visited.
\<close>

definition table_inv :: "(isec_ptr \<Rightarrow> InputSection) \<Rightarrow> isec_ptr set \<Rightarrow> leaf_map \<Rightarrow> bool" where
  "table_inv h0 A m \<longleftrightarrow>
     (\<forall>(k, v) \<in> set m. k \<in> A \<and> v \<in> A \<and> leaf_key (h0 k) = leaf_key (h0 v)) \<and>
     (\<forall>p \<in> A. \<exists>(k, v) \<in> set m. leaf_key (h0 k) = leaf_key (h0 p)) \<and>
     distinct (map (\<lambda>kv. leaf_key (h0 (fst kv))) m)"

definition pending_inv ::
  "(isec_ptr \<Rightarrow> InputSection) \<Rightarrow> isec_ptr set \<Rightarrow> leaf_map \<Rightarrow> leaf_thread \<Rightarrow> bool" where
  "pending_inv h0 A m t \<longleftrightarrow>
     (case pending t of
        Idle \<Rightarrow> True
      | Testing p k \<Rightarrow> p \<in> A \<and> k \<in> fst ` set m \<and> leaf_key (h0 k) = leaf_key (h0 p)
      | Storing p k \<Rightarrow> p \<in> A \<and> k \<in> fst ` set m \<and> leaf_key (h0 k) = leaf_key (h0 p))"

definition run_inv ::
  "(isec_ptr \<Rightarrow> InputSection) \<Rightarrow> ObjectFile list \<Rightarrow> isec_ptr option list list \<Rightarrow>
   leaf_thread list \<Rightarrow> (isec_ptr \<Rightarrow> InputSection) \<times> leaf_map \<Rightarrow> bool" where
  "run_inv h0 fs ds ts st \<longleftrightarrow>
     length ds = length fs \<and> length ts = length fs \<and>
     (\<forall>i < length fs. ds ! i @ todo (ts ! i) = sections (fs ! i)) \<and>
     (\<forall>q. static_eq (fst st q) (h0 q) \<and> leader (fst st q) = leader (h0 q) \<and>
          icf_leaf (fst st q) = (icf_leaf (h0 q) \<or> q \<in> leaves_of h0 (concat ds)) \<and>
          icf_eligible (fst st q) =
            (icf_eligible (h0 q) \<or>
             (Some q \<in> set (concat ds) \<and> is_eligible (h0 q) \<and> \<not> is_leaf (h0 q)))) \<and>
     table_inv h0 (leaves_of h0 (concat ds)) (snd st) \<and>
     (\<forall>t \<in> set ts. pending_inv h0 (leaves_of h0 (concat ds)) (snd st) t)"

section \<open>File priorities\<close>

lemma set_priorities_loop_length:
  "length (set_priorities_loop i files) = length files"
proof (induction i files rule: set_priorities_loop.induct)
  case (1 i files)
  show ?case
  proof (cases "i < length files")
    case True
    with 1 show ?thesis by (subst set_priorities_loop.simps) simp
  next
    case False
    then show ?thesis by (subst set_priorities_loop.simps) simp
  qed
qed

lemma set_priorities_loop_nth:
  "k < length files \<Longrightarrow>
   set_priorities_loop i files ! k =
     (if i \<le> k
      then (files ! k)\<lparr>priority :=
             (if is_in_archive (files ! k) then word_of_nat k + push_bit 31 1
              else word_of_nat k)\<rparr>
      else files ! k)"
proof (induction i files rule: set_priorities_loop.induct)
  case (1 i files)
  show ?case
  proof (cases "i < length files")
    case True
    let ?fs = "files[i := (files ! i)\<lparr>priority :=
                 (if is_in_archive (files ! i) then word_of_nat i + push_bit 31 1
                  else word_of_nat i)\<rparr>]"
    have step: "set_priorities_loop i files = set_priorities_loop (i + 1) ?fs"
      using True by (subst set_priorities_loop.simps) simp
    have ih: "set_priorities_loop (i + 1) ?fs ! k =
       (if i + 1 \<le> k
        then (?fs ! k)\<lparr>priority :=
               (if is_in_archive (?fs ! k) then word_of_nat k + push_bit 31 1
                else word_of_nat k)\<rparr>
        else ?fs ! k)"
      using 1 True by simp
    show ?thesis
      unfolding step ih using True "1.prems"
      by (cases "k = i") (auto simp: nth_list_update)
  next
    case False
    then show ?thesis
      using "1.prems" by (subst set_priorities_loop.simps) simp
  qed
qed

lemma set_priorities_nth:
  "k < length files \<Longrightarrow>
   set_priorities files ! k =
     (files ! k)\<lparr>priority :=
        (if is_in_archive (files ! k) then word_of_nat k + push_bit 31 1
         else word_of_nat k)\<rparr>"
  by (simp add: set_priorities_def set_priorities_loop_nth)

lemma unat_plain_index:
  "k < 2 ^ 31 \<Longrightarrow> unat (word_of_nat k :: u32) = k"
  by (simp add: unat_of_nat)

lemma unat_archive_index:
  assumes "k < 2 ^ 31"
  shows "unat (word_of_nat k + push_bit 31 1 :: u32) = k + 2 ^ 31"
proof -
  have "unat (word_of_nat k + push_bit 31 1 :: u32) =
        (unat (word_of_nat k :: u32) + unat (push_bit 31 1 :: u32)) mod 2 ^ 32"
    by (simp add: unat_word_ariths)
  also have "\<dots> = (k + 2 ^ 31) mod 2 ^ 32"
    using assms by (simp add: unat_of_nat)
  also have "\<dots> = k + 2 ^ 31"
    using assms by simp
  finally show ?thesis .
qed

text \<open>
  Claim C9.  In the final input list (the live files, after the priorities were set over
  the load order), every archive member has a strictly greater priority than every file
  that is not an archive member, the priority being \<open>i + 2^31\<close> for the archive member at
  load index \<open>i\<close> and \<open>i\<close> for any other file.  The index is an \<^verbatim>\<open>int\<close>, so the list
  has at most \<open>2^31\<close> files.
\<close>

theorem archive_members_sort_after:
  assumes "length files \<le> 2 ^ 31"
    and "a \<in> set (eliminate_unused (set_priorities files))"
    and "b \<in> set (eliminate_unused (set_priorities files))"
    and "is_in_archive a" and "\<not> is_in_archive b"
  shows "priority b < priority a \<and>
         (\<exists>i < length files. unat (priority a) = i + 2 ^ 31) \<and>
         (\<exists>j < length files. unat (priority b) = j)"
proof -
  have len: "length (set_priorities files) = length files"
    by (simp add: set_priorities_def set_priorities_loop_length)
  from assms(2) obtain i where i: "i < length files" "a = set_priorities files ! i"
    by (auto simp: eliminate_unused_def in_set_conv_nth len)
  from assms(3) obtain j where j: "j < length files" "b = set_priorities files ! j"
    by (auto simp: eliminate_unused_def in_set_conv_nth len)
  have ia: "is_in_archive (files ! i)"
    using assms(4) i by (simp add: set_priorities_nth)
  have jb: "\<not> is_in_archive (files ! j)"
    using assms(5) j by (simp add: set_priorities_nth)
  have pa: "priority a = word_of_nat i + push_bit 31 1"
    using i ia by (simp add: set_priorities_nth)
  have pb: "priority b = word_of_nat j"
    using j jb by (simp add: set_priorities_nth)
  have i31: "i < 2 ^ 31" and j31: "j < 2 ^ 31"
    using i(1) j(1) assms(1) by simp_all
  have ua: "unat (priority a) = i + 2 ^ 31"
    unfolding pa by (rule unat_archive_index [OF i31])
  have ub: "unat (priority b) = j"
    unfolding pb by (rule unat_plain_index [OF j31])
  have "priority b < priority a"
    using ua ub j31 by (simp add: word_less_nat_alt)
  moreover have "\<exists>i < length files. unat (priority a) = i + 2 ^ 31"
    using ua i(1) by blast
  moreover have "\<exists>j < length files. unat (priority b) = j"
    using ub j(1) by blast
  ultimately show ?thesis by blast
qed

theorem archive_members_sort_after_witness:
  "eliminate_unused (set_priorities
       [\<lparr>is_in_archive = False, is_alive = True, priority = 0\<rparr>,
        \<lparr>is_in_archive = True, is_alive = False, priority = 0\<rparr>,
        \<lparr>is_in_archive = True, is_alive = True, priority = 0\<rparr>]) =
     [\<lparr>is_in_archive = False, is_alive = True, priority = 0\<rparr>,
      \<lparr>is_in_archive = True, is_alive = True, priority = 2147483650\<rparr>] \<and>
   (0 :: u32) < 2147483650"
proof -
  let ?files = "[\<lparr>is_in_archive = False, is_alive = True, priority = 0\<rparr>,
        \<lparr>is_in_archive = True, is_alive = False, priority = 0\<rparr>,
        \<lparr>is_in_archive = True, is_alive = True, priority = (0 :: u32)\<rparr>]"
  let ?b = "\<lparr>is_in_archive = False, is_alive = True, priority = (0 :: u32)\<rparr>"
  let ?a = "\<lparr>is_in_archive = True, is_alive = True, priority = (2147483650 :: u32)\<rparr>"
  have final: "eliminate_unused (set_priorities ?files) = [?b, ?a]"
    by (simp add: eliminate_unused_def set_priorities_def set_priorities_loop.simps)
  have len: "length ?files \<le> 2 ^ 31" by simp
  have ina: "?a \<in> set (eliminate_unused (set_priorities ?files))"
    unfolding final by simp
  have inb: "?b \<in> set (eliminate_unused (set_priorities ?files))"
    unfolding final by simp
  have "priority ?b < priority ?a \<and>
        (\<exists>i < length ?files. unat (priority ?a) = i + 2 ^ 31) \<and>
        (\<exists>j < length ?files. unat (priority ?b) = j)"
    by (rule archive_members_sort_after [OF len ina inb]) simp_all
  then have "priority ?b < priority ?a" by (rule conjunct1)
  then have "(0 :: u32) < 2147483650" by simp
  with final show ?thesis by (rule conjI)
qed

text \<open>
  The order depends on the reading of the member: as a signed 32-bit number the bit pattern
  assigned to an archive member is negative and lies below that of every other file.
\<close>

lemma archive_priority_signed_reading:
  assumes "i < 2 ^ 31" and "j < 2 ^ 31"
  shows "sint (word_of_nat i + push_bit 31 1 :: u32) < sint (word_of_nat j :: u32)"
proof -
  have "(word_of_nat i + push_bit 31 1 :: u32) = word_of_int (int i - 2 ^ 31)"
    by simp
  then have "sint (word_of_nat i + push_bit 31 1 :: u32) =
             signed_take_bit 31 (int i - 2 ^ 31)"
    by (simp only: sint_sbintrunc') simp
  also have "\<dots> = int i - 2 ^ 31"
    using assms(1) by (intro signed_take_bit_int_eq_self) simp_all
  finally have a: "sint (word_of_nat i + push_bit 31 1 :: u32) = int i - 2 ^ 31" .
  have "(word_of_nat j :: u32) = word_of_int (int j)" by simp
  then have "sint (word_of_nat j :: u32) = signed_take_bit 31 (int j)"
    by (simp only: sint_sbintrunc') simp
  also have "\<dots> = int j"
    using assms(2) by (intro signed_take_bit_int_eq_self) simp_all
  finally have b: "sint (word_of_nat j :: u32) = int j" .
  show ?thesis
    unfolding a b using assms(1) by simp
qed

section \<open>The propagation round\<close>

lemma length_digest_data: "length (digest_data d) = 16"
  by (simp add: digest_data_def HASH_SIZE_def)

lemma digest_data_inj:
  assumes "digest_data a = digest_data b"
  shows "a = b"
proof (rule bit_word_eqI)
  fix n assume n: "n < LENGTH(128)"
  let ?k = "15 - n div 8"
  from assms have "digest_data a ! ?k = digest_data b ! ?k" by simp
  then have e: "(ucast (drop_bit (8 * (n div 8)) a) :: u8) = ucast (drop_bit (8 * (n div 8)) b)"
    using n by (simp add: digest_data_def HASH_SIZE_def)
  have "bit (ucast (drop_bit (8 * (n div 8)) a) :: u8) (n mod 8) =
        bit (ucast (drop_bit (8 * (n div 8)) b) :: u8) (n mod 8)"
    using e by simp
  then show "bit a n = bit b n"
    by (simp add: bit_simps)
qed

lemma digest_data_not_Nil: "digest_data d \<noteq> []"
  using length_digest_data [of d] by auto

lemma concat_digest_data_Nil:
  "concat (map digest_data xs) = [] \<longleftrightarrow> xs = []"
  by (cases xs) (simp_all add: digest_data_not_Nil)

lemma concat_digest_data_inj:
  "concat (map digest_data xs) = concat (map digest_data ys) \<Longrightarrow> xs = ys"
proof (induction xs arbitrary: ys)
  case Nil
  then have "concat (map digest_data ys) = []" by simp
  then show ?case by (simp only: concat_digest_data_Nil)
next
  case (Cons x xs)
  show ?case
  proof (cases ys)
    case Nil
    with Cons.prems have "concat (map digest_data (x # xs)) = []" by simp
    then have "x # xs = []" by (simp only: concat_digest_data_Nil)
    then show ?thesis by simp
  next
    case (Cons y ys')
    from Cons.prems have "digest_data x @ concat (map digest_data xs) =
        digest_data y @ concat (map digest_data ys')"
      unfolding Cons by simp
    then have "digest_data x = digest_data y \<and>
        concat (map digest_data xs) = concat (map digest_data ys')"
      by (simp add: length_digest_data)
    then show ?thesis
      unfolding Cons using Cons.IH digest_data_inj by blast
  qed
qed

lemma propagate_edges_result:
  "\<forall>j. b \<le> j \<and> j < e \<longrightarrow> j < length edges \<and> unat (edges ! j) < length cur \<Longrightarrow>
   propagate_edges cur edges b e ctx =
     Some (ctx @ concat (map (\<lambda>j. digest_data (cur ! unat (edges ! j))) [b..<e]))"
proof (induction cur edges b e ctx rule: propagate_edges.induct)
  case (1 cur edges j e ctx)
  show ?case
  proof (cases "j < e")
    case True
    have ok: "j < length edges \<and> unat (edges ! j) < length cur"
      using "1.prems" True by simp
    have ih: "propagate_edges cur edges (j + 1) e
                (SHA256_Update ctx (digest_data (cur ! unat (edges ! j)))) =
              Some (SHA256_Update ctx (digest_data (cur ! unat (edges ! j))) @
                    concat (map (\<lambda>j. digest_data (cur ! unat (edges ! j))) [j + 1..<e]))"
      using "1.IH" True ok "1.prems" by simp
    have "propagate_edges cur edges j e ctx = propagate_edges cur edges (j + 1) e
                (SHA256_Update ctx (digest_data (cur ! unat (edges ! j))))"
      using True ok by (subst propagate_edges.simps) simp
    also note ih
    finally show ?thesis
      using True by (simp add: SHA256_Update_def upt_conv_Cons)
  next
    case False
    then show ?thesis by (subst propagate_edges.simps) simp
  qed
qed


lemma propagate_section_result:
  assumes "edges_in_range (length cur) edges edge_indices" and "i < length cur"
  shows "propagate_section sha256 cur edges edge_indices (length cur) i =
           Some (digest_final sha256 (absorbed cur edges edge_indices i))"
proof -
  let ?b = "unat (edge_indices ! i)"
  let ?e = "if i + 1 = length cur then length edges else unat (edge_indices ! (i + 1))"
  have len: "length edge_indices = length cur"
    using assms(1) by (simp add: edges_in_range_def)
  have rng: "\<forall>j. ?b \<le> j \<and> j < ?e \<longrightarrow> j < length edges \<and> unat (edges ! j) < length cur"
    using assms unfolding edges_in_range_def by blast
  have idx: "i < length edge_indices \<and> (i + 1 = length cur \<or> i + 1 < length edge_indices)"
    using assms(2) len by auto
  have "propagate_edges cur edges ?b ?e (SHA256_Update SHA256_Init (digest_data (cur ! i))) =
        Some (absorbed cur edges edge_indices i)"
    unfolding propagate_edges_result [OF rng]
    by (simp add: absorbed_def neighbor_digests_def SHA256_Update_def SHA256_Init_def
        map_concat comp_def)
  then show ?thesis
    using idx assms(2) by (simp add: propagate_section_def Let_def)
qed


lemma propagate_loop_result:
  assumes "slot < 2" and "length digests = 2"
    and "length (digests ! (slot XOR 1)) = n"
    and "\<forall>k < n. propagate_section sha256 (digests ! slot) edges edge_indices n k = Some (F k)"
    and "i \<le> n"
  shows "propagate_loop sha256 edges edge_indices slot n i digests =
           Some (digests[slot XOR 1 := take i (digests ! (slot XOR 1)) @ map F [i..<n]])"
  using assms
proof (induction "n - i" arbitrary: i digests)
  case 0
  then have "i = n" by simp
  then show ?case
    using 0 by (subst propagate_loop.simps) (simp add: list_update_same_conv)
next
  case (Suc m)
  let ?o = "slot XOR 1"
  have "slot = 0 \<or> slot = 1" using Suc.prems(1) by arith
  then have slots: "slot < length digests \<and> ?o < length digests \<and> ?o \<noteq> slot"
    using Suc.prems(2) by (elim disjE) simp_all
  have i: "i < n" using Suc.hyps(2) by simp
  let ?d2 = "digests[?o := (digests ! ?o)[i := F i]]"
  have cur: "?d2 ! slot = digests ! slot"
    using slots by simp
  have nxt: "?d2 ! ?o = (digests ! ?o)[i := F i]"
    using slots by simp
  have ih: "propagate_loop sha256 edges edge_indices slot n (i + 1) ?d2 =
      Some (?d2[?o := take (i + 1) (?d2 ! ?o) @ map F [i + 1..<n]])"
  proof (rule Suc.hyps(1))
    show "m = n - (i + 1)" using Suc.hyps(2) by simp
    show "slot < 2" by (rule Suc.prems(1))
    show "length ?d2 = 2" using Suc.prems(2) by simp
    show "length (?d2 ! ?o) = n" using nxt Suc.prems(3) by simp
    show "\<forall>k<n. propagate_section sha256 (?d2 ! slot) edges edge_indices n k = Some (F k)"
      unfolding cur by (rule Suc.prems(4))
    show "i + 1 \<le> n" using i by simp
  qed
  have tk: "take (i + 1) ((digests ! ?o)[i := F i]) = take i (digests ! ?o) @ [F i]"
    using i Suc.prems(3) by (simp add: take_Suc_conv_app_nth)
  have sec: "propagate_section sha256 (digests ! slot) edges edge_indices n i = Some (F i)"
    using Suc.prems(4) i by simp
  have "propagate_loop sha256 edges edge_indices slot n i digests =
        propagate_loop sha256 edges edge_indices slot n (i + 1) ?d2"
    using i slots Suc.prems(3) by (subst propagate_loop.simps) (simp add: sec)
  also note ih
  also have "?d2[?o := take (i + 1) (?d2 ! ?o) @ map F [i + 1..<n]] =
             digests[?o := take i (digests ! ?o) @ map F [i..<n]]"
    unfolding nxt tk using i by (simp add: upt_conv_Cons)
  finally show ?case .
qed


lemma propagate_result:
  assumes "slot < 2" and "length digests = 2"
    and "length (digests ! (slot XOR 1)) = length (digests ! slot)"
    and "edges_in_range (length (digests ! slot)) edges edge_indices"
  shows "propagate sha256 digests edges edge_indices slot =
           Some (digests[slot XOR 1 :=
             map (\<lambda>i. digest_final sha256 (absorbed (digests ! slot) edges edge_indices i))
               [0..<length (digests ! slot)]])"
proof -
  let ?n = "length (digests ! slot)"
  have "slot = 0 \<or> slot = 1" using assms(1) by arith
  then have n0: "length (digests ! 0) = ?n"
    using assms(3) by (elim disjE) simp_all
  have sec: "\<forall>k < ?n. propagate_section sha256 (digests ! slot) edges edge_indices ?n k =
      Some (digest_final sha256 (absorbed (digests ! slot) edges edge_indices k))"
    using assms(4) by (simp add: propagate_section_result)
  show ?thesis
    unfolding propagate_def n0
    using propagate_loop_result [OF assms(1,2,3) sec, of 0] assms(2) by simp
qed


lemma card_refines:
  assumes "length xs = length ys"
    and "\<forall>i < length xs. \<forall>k < length xs. xs ! i \<noteq> xs ! k \<longrightarrow> ys ! i \<noteq> ys ! k"
  shows "card (set xs) \<le> card (set ys)"
proof -
  define f where "f d = xs ! (SOME i. i < length ys \<and> ys ! i = d)" for d
  have "set xs \<subseteq> f ` set ys"
  proof
    fix x assume "x \<in> set xs"
    then obtain i where i: "i < length xs" "x = xs ! i"
      by (auto simp: in_set_conv_nth)
    let ?k = "SOME k. k < length ys \<and> ys ! k = ys ! i"
    have "?k < length ys \<and> ys ! ?k = ys ! i"
      by (rule someI [of _ i]) (use i assms(1) in simp)
    then have "xs ! ?k = xs ! i"
      using assms i(1) by metis
    then have "f (ys ! i) = x"
      by (simp add: f_def i(2))
    moreover have "ys ! i \<in> set ys"
      using i(1) assms(1) by simp
    ultimately show "x \<in> f ` set ys" by blast
  qed
  then have "card (set xs) \<le> card (f ` set ys)"
    by (simp add: card_mono)
  also have "\<dots> \<le> card (set ys)"
    by (simp add: card_image_le)
  finally show ?thesis .
qed

lemma absorbed_differs:
  assumes "cur ! i \<noteq> cur ! k"
  shows "absorbed cur edges edge_indices i \<noteq> absorbed cur edges edge_indices k"
proof
  assume "absorbed cur edges edge_indices i = absorbed cur edges edge_indices k"
  then have "cur ! i # neighbor_digests cur edges edge_indices i =
             cur ! k # neighbor_digests cur edges edge_indices k"
    unfolding absorbed_def by (rule concat_digest_data_inj)
  with assms show False by simp
qed

lemma propagation_round_result:
  assumes "slot < 2" and "length digests = 2"
    and "length (digests ! (slot XOR 1)) = length (digests ! slot)"
    and "edges_in_range (length (digests ! slot)) edges edge_indices"
  shows "propagation_round sha256 edges edge_indices (digests, slot) =
           Some (digests[slot XOR 1 :=
             map (\<lambda>i. digest_final sha256 (absorbed (digests ! slot) edges edge_indices i))
               [0..<length (digests ! slot)]], slot XOR 1)"
  by (simp add: propagation_round_def propagate_result [OF assms])

lemma slot_flip:
  assumes "slot < (2 :: nat)"
  shows "slot XOR 1 < 2 \<and> slot XOR 1 \<noteq> slot \<and> (slot XOR 1) XOR 1 = slot"
proof -
  have "slot = 0 \<or> slot = 1" using assms by arith
  then show ?thesis by (elim disjE) simp_all
qed



lemma propagation_round_buffers:
  assumes "slot < 2" and "length digests = 2"
    and "length (digests ! (slot XOR 1)) = length (digests ! slot)"
    and "edges_in_range (length (digests ! slot)) edges edge_indices"
  shows "\<exists>digests'.
     propagation_round sha256 edges edge_indices (digests, slot) = Some (digests', slot XOR 1) \<and>
     digests' ! slot = digests ! slot \<and>
     digests' ! (slot XOR 1) =
       map (\<lambda>i. digest_final sha256 (absorbed (digests ! slot) edges edge_indices i))
         [0..<length (digests ! slot)]"
proof -
  have flip: "slot XOR 1 < 2 \<and> slot XOR 1 \<noteq> slot"
    using slot_flip [OF assms(1)] by simp
  show ?thesis
    unfolding propagation_round_result [OF assms]
    using flip assms(2) by simp
qed


lemma edges_in_range_example: "edges_in_range (Suc (Suc 0)) [1] [0, 1]"
  unfolding edges_in_range_def by (auto simp: less_Suc_eq)

lemma absorbed_example_0:
  "absorbed [5, 7] [1] [0, 1] 0 =
     [0,0,0,0,0,0,0,0,0,0,0,0,0,0,0,5,0,0,0,0,0,0,0,0,0,0,0,0,0,0,0,7]"
  by (simp add: absorbed_def neighbor_digests_def digest_data_def HASH_SIZE_def upt_rec)

lemma absorbed_example_1:
  "absorbed [5, 7] [1] [0, 1] (Suc 0) = [0,0,0,0,0,0,0,0,0,0,0,0,0,0,0,7]"
  by (simp add: absorbed_def neighbor_digests_def digest_data_def HASH_SIZE_def upt_rec)

lemma sum_hash_example_0:
  "digest_final (\<lambda>bs. push_bit 128 (ucast (sum_list bs)))
     [0,0,0,0,0,0,0,0,0,0,0,0,0,0,0,5,0,0,0,0,0,0,0,0,0,0,0,0,0,0,0,7] = 12"
  by (simp add: digest_final_def HASH_SIZE_def)

lemma sum_hash_example_1:
  "digest_final (\<lambda>bs. push_bit 128 (ucast (sum_list bs)))
     [0,0,0,0,0,0,0,0,0,0,0,0,0,0,0,7] = 7"
  by (simp add: digest_final_def HASH_SIZE_def)

text \<open>
  Claim C5, as the code has it.  One round of the loop writes, for every participant \<open>i\<close>,
  into the next buffer the truncated hash of \<open>i\<close>'s current digest followed by the current
  digests of its out-neighbours \<open>edges[j]\<close>, \<open>j\<close> from \<open>edge_indices[i]\<close> up to
  \<open>edge_indices[i + 1]\<close> (up to \<open>edges.size()\<close> for the last section), in the order of the
  edge array; the current buffer is left as it was, and the slot index flips.  Two sections
  whose sequences (own digest, neighbour digests) differ receive different next digests
  whenever the truncated hash does not collide on their two inputs.
\<close>

theorem propagation_round_digests:
  assumes "slot < 2" and "length digests = 2"
    and "length (digests ! (slot XOR 1)) = length (digests ! slot)"
    and "edges_in_range (length (digests ! slot)) edges edge_indices"
  shows "\<exists>digests'.
     propagation_round sha256 edges edge_indices (digests, slot) = Some (digests', slot XOR 1) \<and>
     slot XOR 1 < 2 \<and> slot XOR 1 \<noteq> slot \<and>
     digests' ! slot = digests ! slot \<and>
     length (digests' ! (slot XOR 1)) = length (digests ! slot) \<and>
     (\<forall>i < length (digests ! slot).
        digests' ! (slot XOR 1) ! i =
          digest_final sha256 (concat (map digest_data
            (digests ! slot ! i # neighbor_digests (digests ! slot) edges edge_indices i)))) \<and>
     (\<forall>i < length (digests ! slot). \<forall>k < length (digests ! slot).
        digests ! slot ! i # neighbor_digests (digests ! slot) edges edge_indices i \<noteq>
        digests ! slot ! k # neighbor_digests (digests ! slot) edges edge_indices k \<and>
        (digest_final sha256 (absorbed (digests ! slot) edges edge_indices i) =
         digest_final sha256 (absorbed (digests ! slot) edges edge_indices k) \<longrightarrow>
         absorbed (digests ! slot) edges edge_indices i =
         absorbed (digests ! slot) edges edge_indices k)
        \<longrightarrow> digests' ! (slot XOR 1) ! i \<noteq> digests' ! (slot XOR 1) ! k)"
proof -
  define cur where "cur = digests ! slot"
  define A where "A = absorbed cur edges edge_indices"
  obtain digests' where
    run: "propagation_round sha256 edges edge_indices (digests, slot) =
            Some (digests', slot XOR 1)"
    and keep: "digests' ! slot = cur"
    and nxt: "digests' ! (slot XOR 1) = map (\<lambda>i. digest_final sha256 (A i)) [0..<length cur]"
    using propagation_round_buffers [OF assms, of sha256] unfolding cur_def A_def by blast
  have flip1: "slot XOR 1 < 2" and flip2: "slot XOR 1 \<noteq> slot"
    using slot_flip [OF assms(1)] by simp_all
  have len: "length (digests' ! (slot XOR 1)) = length cur"
    unfolding nxt by simp
  have val: "\<forall>i < length cur. digests' ! (slot XOR 1) ! i =
          digest_final sha256 (concat (map digest_data
            (cur ! i # neighbor_digests cur edges edge_indices i)))"
    unfolding nxt A_def by (simp add: absorbed_def)
  have sep: "\<forall>i < length cur. \<forall>k < length cur.
        cur ! i # neighbor_digests cur edges edge_indices i \<noteq>
        cur ! k # neighbor_digests cur edges edge_indices k \<and>
        (digest_final sha256 (A i) = digest_final sha256 (A k) \<longrightarrow> A i = A k)
        \<longrightarrow> digests' ! (slot XOR 1) ! i \<noteq> digests' ! (slot XOR 1) ! k"
  proof (intro allI impI)
    fix i k
    assume i: "i < length cur" and k: "k < length cur"
      and h: "cur ! i # neighbor_digests cur edges edge_indices i \<noteq>
        cur ! k # neighbor_digests cur edges edge_indices k \<and>
        (digest_final sha256 (A i) = digest_final sha256 (A k) \<longrightarrow> A i = A k)"
    have "A i \<noteq> A k"
    proof
      assume "A i = A k"
      then have "cur ! i # neighbor_digests cur edges edge_indices i =
                 cur ! k # neighbor_digests cur edges edge_indices k"
        unfolding A_def absorbed_def by (rule concat_digest_data_inj)
      with h show False by simp
    qed
    with h have "digest_final sha256 (A i) \<noteq> digest_final sha256 (A k)"
      by blast
    then show "digests' ! (slot XOR 1) ! i \<noteq> digests' ! (slot XOR 1) ! k"
      unfolding nxt using i k by simp
  qed
  show ?thesis
    unfolding cur_def [symmetric] A_def [symmetric]
    by (rule exI [of _ digests'], intro conjI) (rule run flip1 flip2 keep len val sep)+
qed

theorem propagation_round_digests_witness:
  "\<exists>digests'.
     propagation_round (\<lambda>bs. push_bit 128 (ucast (sum_list bs))) [1] [0, 1]
       ([[5, 7], [0, 0]], 0) = Some (digests', 1) \<and>
     digests' ! 0 = [5, 7] \<and>
     digests' ! 1 ! 0 = 12 \<and> digests' ! 1 ! 1 = 7 \<and>
     digests' ! 1 ! 0 \<noteq> digests' ! 1 ! 1"
proof -
  let ?sha = "\<lambda>bs :: u8 list. (push_bit 128 (ucast (sum_list bs)) :: 256 word)"
  let ?ds = "[[5, 7], [0, 0 :: Digest]]"
  have r: "edges_in_range (length (?ds ! 0)) [1] [0, 1]"
    using edges_in_range_example by simp
  obtain digests' where
    run: "propagation_round ?sha [1] [0, 1] (?ds, 0) = Some (digests', 0 XOR 1)"
    and keep: "digests' ! 0 = ?ds ! 0"
    and val: "\<forall>i < length (?ds ! 0). digests' ! (0 XOR 1) ! i =
          digest_final ?sha (concat (map digest_data
            (?ds ! 0 ! i # neighbor_digests (?ds ! 0) [1] [0, 1] i)))"
    and sep: "\<forall>i < length (?ds ! 0). \<forall>k < length (?ds ! 0).
        ?ds ! 0 ! i # neighbor_digests (?ds ! 0) [1] [0, 1] i \<noteq>
        ?ds ! 0 ! k # neighbor_digests (?ds ! 0) [1] [0, 1] k \<and>
        (digest_final ?sha (absorbed (?ds ! 0) [1] [0, 1] i) =
         digest_final ?sha (absorbed (?ds ! 0) [1] [0, 1] k) \<longrightarrow>
         absorbed (?ds ! 0) [1] [0, 1] i = absorbed (?ds ! 0) [1] [0, 1] k)
        \<longrightarrow> digests' ! (0 XOR 1) ! i \<noteq> digests' ! (0 XOR 1) ! k"
    using propagation_round_digests [of 0 ?ds "[1]" "[0, 1]" ?sha, OF _ _ _ r]
    by auto
  have "digests' ! 1 ! 0 = digest_final ?sha (absorbed [5, 7] [1] [0, 1] 0)"
    unfolding absorbed_def using val [rule_format, of 0] by simp
  then have v0: "digests' ! 1 ! 0 = 12"
    by (simp only: absorbed_example_0 sum_hash_example_0)
  have "digests' ! 1 ! Suc 0 = digest_final ?sha (absorbed [5, 7] [1] [0, 1] (Suc 0))"
    unfolding absorbed_def using val [rule_format, of "Suc 0"] by simp
  then have v1: "digests' ! 1 ! Suc 0 = 7"
    by (simp only: absorbed_example_1 sum_hash_example_1)
  have "digests' ! 1 ! 0 \<noteq> digests' ! 1 ! Suc 0"
    using sep [rule_format, of 0 "Suc 0"]
    by (simp add: absorbed_example_0 absorbed_example_1 sum_hash_example_0
        sum_hash_example_1)
  with run keep v0 v1 show ?thesis by simp
qed


text \<open>
  Claim C5 as stated fails in its last sentence: sections 2 and 3 below have the same
  current digest and the out-neighbours \<open>[0, 1]\<close> and \<open>[1, 0]\<close>, the same relocations in
  another order.  Their neighbours 0 and 1 carry equal digests, so both sections absorb the
  same bytes and receive the same next digest, whatever the hash function is.
\<close>

theorem relocation_order_counterexample:
  "\<forall>sha256. \<exists>digests'.
     propagation_round sha256 [0, 1, 1, 0] [0, 0, 0, 2] ([[5, 5, 7, 7], [0, 0, 0, 0]], 0) =
       Some (digests', 1) \<and>
     map (\<lambda>j. [0, 1, 1, 0 :: u32] ! j) [0..<2] = [0, 1] \<and>
     map (\<lambda>j. [0, 1, 1, 0 :: u32] ! j) [2..<4] = [1, 0] \<and>
     [5, 5, 7, 7 :: Digest] ! 2 = [5, 5, 7, 7] ! 3 \<and>
     digests' ! 1 ! 2 = digests' ! 1 ! 3"
  by (simp add: propagation_round_def propagate_def propagate_loop.simps propagate_section_def
      propagate_edges.simps SHA256_Update_def SHA256_Init_def upt_rec)


text \<open>
  Claim C6.  If the truncated hash is injective on the inputs absorbed in a round, the round
  maps sections with distinct current digests to distinct next digests (the own digest is
  the first block absorbed, and every block has 16 bytes), and so the number of distinct
  digests does not decrease from the current buffer to the next one.  The round is
  arbitrary, so this holds from every round to the next.
\<close>

theorem propagation_round_refines:
  assumes "slot < 2" and "length digests = 2"
    and "length (digests ! (slot XOR 1)) = length (digests ! slot)"
    and "edges_in_range (length (digests ! slot)) edges edge_indices"
    and "inj_on (digest_final sha256)
           (absorbed (digests ! slot) edges edge_indices ` {..<length (digests ! slot)})"
  shows "\<exists>digests'.
     propagation_round sha256 edges edge_indices (digests, slot) = Some (digests', slot XOR 1) \<and>
     (\<forall>i < length (digests ! slot). \<forall>k < length (digests ! slot).
        digests ! slot ! i \<noteq> digests ! slot ! k \<longrightarrow>
        digests' ! (slot XOR 1) ! i \<noteq> digests' ! (slot XOR 1) ! k) \<and>
     card (set (digests ! slot)) \<le> card (set (digests' ! (slot XOR 1)))"
proof -
  define cur where "cur = digests ! slot"
  define A where "A = absorbed cur edges edge_indices"
  obtain digests' where
    run: "propagation_round sha256 edges edge_indices (digests, slot) =
            Some (digests', slot XOR 1)"
    and nxt: "digests' ! (slot XOR 1) = map (\<lambda>i. digest_final sha256 (A i)) [0..<length cur]"
    using propagation_round_buffers [OF assms(1-4), of sha256] unfolding cur_def A_def by blast
  have inj: "inj_on (digest_final sha256) (A ` {..<length cur})"
    using assms(5) unfolding cur_def A_def .
  have sep: "\<forall>i < length cur. \<forall>k < length cur.
        cur ! i \<noteq> cur ! k \<longrightarrow> digests' ! (slot XOR 1) ! i \<noteq> digests' ! (slot XOR 1) ! k"
  proof (intro allI impI)
    fix i k
    assume i: "i < length cur" and k: "k < length cur" and ne: "cur ! i \<noteq> cur ! k"
    have ad: "A i \<noteq> A k"
      unfolding A_def by (rule absorbed_differs [OF ne])
    have mi: "A i \<in> A ` {..<length cur}" using i by (intro imageI) simp
    have mk: "A k \<in> A ` {..<length cur}" using k by (intro imageI) simp
    have "digest_final sha256 (A i) \<noteq> digest_final sha256 (A k)"
    proof
      assume "digest_final sha256 (A i) = digest_final sha256 (A k)"
      then have "A i = A k"
        by (rule inj_onD [OF inj _ mi mk])
      with ad show False by (rule notE)
    qed
    then show "digests' ! (slot XOR 1) ! i \<noteq> digests' ! (slot XOR 1) ! k"
      unfolding nxt using i k by simp
  qed
  have "length cur = length (digests' ! (slot XOR 1))"
    unfolding nxt by simp
  then have crd: "card (set cur) \<le> card (set (digests' ! (slot XOR 1)))"
    using sep by (rule card_refines)
  show ?thesis
    unfolding cur_def [symmetric]
    by (rule exI [of _ digests'], intro conjI) (rule run sep crd)+
qed

theorem propagation_round_refines_witness:
  "\<exists>digests'.
     propagation_round (\<lambda>bs. push_bit 128 (ucast (sum_list bs))) [1] [0, 1]
       ([[5, 7], [0, 0]], 0) = Some (digests', 1) \<and>
     digests' ! 1 ! 0 \<noteq> digests' ! 1 ! 1 \<and>
     card (set [5, 7 :: Digest]) \<le> card (set (digests' ! 1))"
proof -
  let ?sha = "\<lambda>bs :: u8 list. (push_bit 128 (ucast (sum_list bs)) :: 256 word)"
  let ?ds = "[[5, 7], [0, 0 :: Digest]]"
  have r: "edges_in_range (length (?ds ! 0)) [1] [0, 1]"
    using edges_in_range_example by simp
  have "absorbed (?ds ! 0) [1] [0, 1] ` {..<length (?ds ! 0)} =
        {absorbed [5, 7] [1] [0, 1] 0, absorbed [5, 7] [1] [0, 1] (Suc 0)}"
    by (auto simp: less_Suc_eq)
  then have img: "absorbed (?ds ! 0) [1] [0, 1] ` {..<length (?ds ! 0)} =
        {[0,0,0,0,0,0,0,0,0,0,0,0,0,0,0,5,0,0,0,0,0,0,0,0,0,0,0,0,0,0,0,7],
         [0,0,0,0,0,0,0,0,0,0,0,0,0,0,0,7]}"
    by (simp only: absorbed_example_0 absorbed_example_1)
  have inj: "inj_on (digest_final ?sha)
      (absorbed (?ds ! 0) [1] [0, 1] ` {..<length (?ds ! 0)})"
    unfolding img by (simp add: sum_hash_example_0 sum_hash_example_1)
  obtain digests' where
    run: "propagation_round ?sha [1] [0, 1] (?ds, 0) = Some (digests', 0 XOR 1)"
    and sep: "\<forall>i < length (?ds ! 0). \<forall>k < length (?ds ! 0).
        ?ds ! 0 ! i \<noteq> ?ds ! 0 ! k \<longrightarrow>
        digests' ! (0 XOR 1) ! i \<noteq> digests' ! (0 XOR 1) ! k"
    and crd: "card (set (?ds ! 0)) \<le> card (set (digests' ! (0 XOR 1)))"
    using propagation_round_refines [of 0 ?ds "[1]" "[0, 1]" ?sha, OF _ _ _ r inj]
    by auto
  have "digests' ! 1 ! 0 \<noteq> digests' ! 1 ! 1"
    using sep [rule_format, of 0 1] by simp
  with run crd show ?thesis by simp
qed


section \<open>The class counter\<close>

lemma adjacent_differences_Cons:
  "length (filter (\<lambda>i. (x # y # r) ! i \<noteq> (x # y # r) ! (i + 1)) [0..<length (x # y # r) - 1]) =
   (if x \<noteq> y then 1 else 0) +
   length (filter (\<lambda>i. (y # r) ! i \<noteq> (y # r) ! (i + 1)) [0..<length (y # r) - 1])"
proof -
  have "[0..<length (x # y # r) - 1] = 0 # map Suc [0..<length (y # r) - 1]"
    by (simp add: upt_conv_Cons map_Suc_upt del: upt_Suc)
  then show ?thesis
    by (simp add: filter_map comp_def del: upt_Suc)
qed

lemma adjacent_differences_sorted:
  "sorted xs \<Longrightarrow>
   length (filter (\<lambda>i. xs ! i \<noteq> xs ! (i + 1)) [0..<length xs - 1]) = card (set xs) - 1"
proof (induction xs rule: induct_list012)
  case 1
  then show ?case by simp
next
  case (2 x)
  then show ?case by simp
next
  case (3 x y r)
  have ih: "length (filter (\<lambda>i. (y # r) ! i \<noteq> (y # r) ! (i + 1)) [0..<length (y # r) - 1]) =
            card (set (y # r)) - 1"
    using 3 by simp
  have pos: "0 < card (set (y # r))"
    by (simp add: card_gt_0_iff)
  show ?case
  proof (cases "x = y")
    case True
    then have "set (x # y # r) = set (y # r)" by auto
    then show ?thesis
      unfolding adjacent_differences_Cons ih using True by simp
  next
    case False
    have "\<forall>z \<in> set (y # r). x \<le> z" using "3.prems" by auto
    moreover have "\<forall>z \<in> set (y # r). y \<le> z" using "3.prems" by auto
    ultimately have "x \<notin> set (y # r)" using False "3.prems" by force
    then have "card (set (x # y # r)) = Suc (card (set (y # r)))"
      by simp
    then show ?thesis
      unfolding adjacent_differences_Cons ih using False pos by simp
  qed
qed

text \<open>
  Claim C2 says that the class counter returns the number of distinct digests.  The code
  counts the positions of the sorted vector whose right neighbour differs, which is one less
  than the number of distinct digests whenever the vector is not empty: for a vector of one
  digest it returns 0, and there is 1 distinct digest.
\<close>

theorem count_num_classes_transitions:
  "count_num_classes digests = (if digests = [] then 0 else int (card (set digests)) - 1) \<and>
   count_num_classes [d] = 0 \<and> card (set [d]) = 1"
proof -
  have "count_num_classes digests = int (card (set (sort digests)) - 1)"
    unfolding count_num_classes_def Let_def
    by (simp only: adjacent_differences_sorted [OF sorted_sort])
  also have "\<dots> = (if digests = [] then 0 else int (card (set digests)) - 1)"
  proof (cases "digests = []")
    case True then show ?thesis by simp
  next
    case False
    then have "0 < card (set digests)" by (simp add: card_gt_0_iff)
    then show ?thesis using False by simp
  qed
  finally have g: "count_num_classes digests =
      (if digests = [] then 0 else int (card (set digests)) - 1)" .
  have "count_num_classes [d] = 0"
    by (simp add: count_num_classes_def)
  with g show ?thesis by simp
qed


section \<open>The election of the leaders\<close>

text \<open>
  Claim C1 says that every section that passed the eligibility filter ends with a leader.
  The loop that elects the leaders runs over the indices from 0 up to, and not including,
  \<open>size - 1\<close>, so a class that starts at the last index of the sorted vector gets no
  leader.  With one participant the loop does nothing at all: the example is a context with
  one eligible section that is not a leaf; the pass returns, and the section's leader is
  still null.
\<close>

theorem single_participant_gets_no_leader:
  "elect_leaders digest [p] h = h \<and>
   is_eligible (isecs example_context 0) \<and> \<not> is_leaf (isecs example_context 0) \<and>
   (case icf_sections 20 (\<lambda>bytes. 0) (\<lambda>bytes. 0) example_context of
      None \<Rightarrow> None
    | Some c \<Rightarrow> Some (leader (isecs c 0))) = Some None"
proof -
  have "elect_leaders digest [p] h = h"
    by (simp add: elect_leaders_def)
  moreover have "is_eligible (isecs example_context 0)"
    by code_simp
  moreover have "\<not> is_leaf (isecs example_context 0)"
    by code_simp
  moreover have "(case icf_sections 20 (\<lambda>bytes. 0) (\<lambda>bytes. 0) example_context of
      None \<Rightarrow> None
    | Some c \<Rightarrow> Some (leader (isecs c 0))) = Some None"
    by code_simp
  ultimately show ?thesis by simp
qed

section \<open>Empty inputs\<close>

lemma gather_edges_Nil: "gather_edges c [] = None"
  by (simp add: gather_edges_def edge_indices_loop.simps)

lemma gather_sections_no_objs: "objs c = [] \<Longrightarrow> gather_sections c = None"
  by (simp add: gather_sections_def section_indices_loop.simps)

text \<open>
  Claim C10.  The edge builder has no defined result for an empty vector of participants,
  and the section enumerator has none for an empty list of object files: the bound of
  their prefix-sum loops wraps around to \<open>2^64 - 1\<close>, and the first turn of the loop already
  indexes the empty vectors out of range.  So whenever the pass returns, there was an object
  file, and the enumerator found a participant.
\<close>

theorem icf_sections_needs_participants:
  "gather_edges c [] = None \<and>
   gather_sections (c\<lparr>objs := []\<rparr>) = None \<and>
   (icf_sections fuel sha256 std_hash c = Some c' \<longrightarrow>
      objs c \<noteq> [] \<and>
      (\<exists>c1 c2 secs. leaf_pass std_hash c = Some c1 \<and> gather_sections c1 = Some (c2, secs) \<and>
         objs c1 \<noteq> [] \<and> secs \<noteq> []))"
proof (intro conjI impI)
  show "gather_edges c [] = None" by (rule gather_edges_Nil)
  show "gather_sections (c\<lparr>objs := []\<rparr>) = None"
    by (rule gather_sections_no_objs) simp
next
  assume run: "icf_sections fuel sha256 std_hash c = Some c'"
  then obtain c1 where c1: "leaf_pass std_hash c = Some c1"
    by (auto simp: icf_sections_def split: option.splits)
  from run c1 obtain c2 secs where gs: "gather_sections c1 = Some (c2, secs)"
    by (auto simp: icf_sections_def split: option.splits)
  from run c1 gs obtain r where ge: "gather_edges c2 secs = Some r"
    by (auto simp: icf_sections_def split: option.splits)
  have secs: "secs \<noteq> []"
    using ge gather_edges_Nil [of c2] by auto
  have o1: "objs c1 \<noteq> []"
    using gs gather_sections_no_objs [of c1] by auto
  have "objs c1 = objs c"
    using c1 by (auto simp: leaf_pass_def split: option.splits)
  with o1 have o: "objs c \<noteq> []" by simp
  show "objs c \<noteq> []" by (rule o)
  show "\<exists>c1 c2 secs. leaf_pass std_hash c = Some c1 \<and> gather_sections c1 = Some (c2, secs) \<and>
         objs c1 \<noteq> [] \<and> secs \<noteq> []"
    using c1 gs o1 secs by blast
qed

theorem icf_sections_needs_participants_witness:
  "(\<exists>c'. icf_sections 20 (\<lambda>bytes. 0) (\<lambda>bytes. 0) example_context = Some c') \<and>
   objs example_context \<noteq> [] \<and>
   (\<exists>c1 c2 secs. leaf_pass (\<lambda>bytes. 0) example_context = Some c1 \<and>
      gather_sections c1 = Some (c2, secs) \<and> objs c1 \<noteq> [] \<and> secs \<noteq> [])"
proof -
  have "(case icf_sections 20 (\<lambda>bytes. 0) (\<lambda>bytes. 0) example_context of
           None \<Rightarrow> False | Some c' \<Rightarrow> True)"
    by code_simp
  then obtain c' where
    run: "icf_sections 20 (\<lambda>bytes. 0) (\<lambda>bytes. 0) example_context = Some c'"
    by (auto split: option.splits)
  have "objs example_context \<noteq> [] \<and>
   (\<exists>c1 c2 secs. leaf_pass (\<lambda>bytes. 0) example_context = Some c1 \<and>
      gather_sections c1 = Some (c2, secs) \<and> objs c1 \<noteq> [] \<and> secs \<noteq> [])"
    using icf_sections_needs_participants
      [of example_context 20 "\<lambda>bytes. 0" "\<lambda>bytes. 0" c'] run
    by blast
  with run show ?thesis by blast
qed

section \<open>The commit\<close>

lemma reassign_symbol_leader:
  "leader (isecs (reassign_symbol s c) q) = leader (isecs c q)"
  by (simp add: reassign_symbol_def split: option.splits)

lemma reassign_symbol_dead:
  "is_dead (isecs c p) \<Longrightarrow> is_dead (isecs (reassign_symbol s c) p)"
  by (simp add: reassign_symbol_def split: option.splits)

lemma reassign_symbol_other:
  "s \<noteq> t \<Longrightarrow> syms (reassign_symbol s c) t = syms c t"
  by (simp add: reassign_symbol_def split: option.splits)

lemma reassign_symbol_settled:
  "input_section (syms c t) = Some l \<Longrightarrow> leader (isecs c l) = Some l \<Longrightarrow>
   input_section (syms (reassign_symbol s c) t) = Some l"
  by (cases "s = t") (auto simp: reassign_symbol_def split: option.splits)

lemma reassign_symbol_folded:
  "input_section (syms c s) = Some p \<Longrightarrow> leader (isecs c p) = Some l \<Longrightarrow> l \<noteq> p \<Longrightarrow>
   input_section (syms (reassign_symbol s c) s) = Some l \<and>
   is_dead (isecs (reassign_symbol s c) p)"
  by (simp add: reassign_symbol_def)

lemma fold_reassign_leader:
  "leader (isecs (fold reassign_symbol ss c) q) = leader (isecs c q)"
  by (induction ss arbitrary: c) (simp_all add: reassign_symbol_leader)

lemma fold_reassign_dead:
  "is_dead (isecs c p) \<Longrightarrow> is_dead (isecs (fold reassign_symbol ss c) p)"
  by (induction ss arbitrary: c) (simp_all add: reassign_symbol_dead)

lemma fold_reassign_settled:
  "input_section (syms c t) = Some l \<Longrightarrow> leader (isecs c l) = Some l \<Longrightarrow>
   input_section (syms (fold reassign_symbol ss c) t) = Some l"
proof (induction ss arbitrary: c)
  case Nil
  then show ?case by simp
next
  case (Cons s ss)
  have "input_section (syms (reassign_symbol s c) t) = Some l"
    using Cons.prems by (rule reassign_symbol_settled)
  moreover have "leader (isecs (reassign_symbol s c) l) = Some l"
    using Cons.prems(2) by (simp add: reassign_symbol_leader)
  ultimately show ?case
    using Cons.IH by simp
qed

lemma fold_reassign_folded:
  assumes "s \<in> set ss"
    and "input_section (syms c s) = Some p"
    and "leader (isecs c p) = Some l" and "l \<noteq> p"
    and "leader (isecs c l) = Some l"
  shows "input_section (syms (fold reassign_symbol ss c) s) = Some l \<and>
         is_dead (isecs (fold reassign_symbol ss c) p)"
  using assms
proof (induction ss arbitrary: c)
  case Nil
  then show ?case by simp
next
  case (Cons x ss)
  let ?c = "reassign_symbol x c"
  have lead: "leader (isecs ?c p) = Some l" "leader (isecs ?c l) = Some l"
    using Cons.prems(3,5) by (simp_all add: reassign_symbol_leader)
  show ?case
  proof (cases "x = s")
    case True
    have st: "input_section (syms ?c s) = Some l \<and> is_dead (isecs ?c p)"
      unfolding True using Cons.prems(2,3,4) by (rule reassign_symbol_folded)
    have "input_section (syms (fold reassign_symbol ss ?c) s) = Some l"
      using st lead(2) by (simp add: fold_reassign_settled)
    moreover have "is_dead (isecs (fold reassign_symbol ss ?c) p)"
      using st by (simp add: fold_reassign_dead)
    ultimately show ?thesis by simp
  next
    case False
    then have "s \<in> set ss" using Cons.prems(1) by simp
    moreover have "input_section (syms ?c s) = Some p"
      using False Cons.prems(2) by (simp add: reassign_symbol_other)
    ultimately show ?thesis
      using Cons.IH [of ?c] lead Cons.prems(4) by simp
  qed
qed

lemma fold_nested:
  "fold (\<lambda>f. fold g (sel f)) fs c = fold g (concat (map sel fs)) c"
  by (induction fs arbitrary: c) simp_all

lemma reassign_symbols_flat:
  "reassign_symbols c = fold reassign_symbol (concat (map symbols (objs c))) c"
  by (simp add: reassign_symbols_def fold_nested)

text \<open>
  What the commit does for the symbols it walks over.  A symbol of some file's symbol table
  whose section \<open>p\<close> was folded (the leader \<open>l\<close> of \<open>p\<close> is set, is not \<open>p\<close>, and is a
  survivor, its own leader, as the leaf pass and the election leave it) refers to \<open>l\<close>
  after the commit, and \<open>p\<close> is marked dead.
\<close>

lemma folded_symbols_redirected:
  assumes "f \<in> set (objs c)" and "s \<in> set (symbols f)"
    and "input_section (syms c s) = Some p"
    and "leader (isecs c p) = Some l" and "l \<noteq> p"
    and "leader (isecs c l) = Some l"
  shows "input_section (syms (reassign_symbols c) s) = Some l \<and>
         is_dead (isecs (reassign_symbols c) p)"
proof -
  have "s \<in> set (concat (map symbols (objs c)))"
    using assms(1,2) by auto
  then show ?thesis
    unfolding reassign_symbols_flat using assms(3-6) by (rule fold_reassign_folded)
qed

lemma folded_symbols_redirected_example:
  "input_section (syms (reassign_symbols folded_context) 0) = Some 0 \<and>
   is_dead (isecs (reassign_symbols folded_context) 1)"
proof (rule folded_symbols_redirected)
  show "\<lparr>sections = [Some 0, Some 1], symbols = [0]\<rparr> \<in> set (objs folded_context)"
    by (simp add: folded_context_def)
  show "0 \<in> set (symbols \<lparr>sections = [Some 0, Some 1], symbols = [0]\<rparr>)"
    by simp
  show "input_section (syms folded_context 0) = Some 1"
    by (simp add: folded_context_def)
  show "leader (isecs folded_context 1) = Some 0"
    by (simp add: folded_context_def)
  show "(0 :: nat) \<noteq> 1" by simp
  show "leader (isecs folded_context 0) = Some 0"
    by (simp add: folded_context_def)
qed

text \<open>
  Claim C3 says that after the commit every symbol whose section was folded refers to the
  leader, and that every folded section that does not survive is marked dead.  The commit
  marks a section dead only where it redirects a symbol that refers to it, while the report
  of the pass counts every section with another leader as removed.  In the example the
  sections 0 and 1 are equal leaves of two files, and the one symbol defined in them was
  resolved to section 0: after the whole pass section 1 has the leader 0 and is not marked
  dead.
\<close>

theorem unreferenced_folded_section_stays_alive:
  "(case icf_sections 20 (\<lambda>bytes. 0) (\<lambda>bytes. 0) leaf_context of
      None \<Rightarrow> None
    | Some c \<Rightarrow> Some (leader (isecs c 1), is_dead (isecs c 1))) = Some (Some 0, False)"
  by code_simp

section \<open>The leaf pass\<close>

lemma map_eq_iff_nth:
  "length xs = length ys \<Longrightarrow>
   (map f xs = map f ys) = (\<forall>i < length xs. f (xs ! i) = f (ys ! i))"
  by (simp add: list_eq_iff_nth_eq)

lemma LeafEq_leaf_key: "LeafEq a b \<longleftrightarrow> leaf_key a = leaf_key b"
proof (cases "length (fdes a) = length (fdes b)")
  case True
  show ?thesis
    unfolding LeafEq_def leaf_key_def
    by (simp add: True map_eq_iff_nth [OF True] list_all_iff Ball_def)
next
  case False
  then have "map (\<lambda>fde. (length (fde_contents fde), drop 8 (fde_contents fde))) (fdes a) \<noteq>
        map (\<lambda>fde. (length (fde_contents fde), drop 8 (fde_contents fde))) (fdes b)"
    using map_eq_imp_length_eq by blast
  then show ?thesis
    unfolding LeafEq_def leaf_key_def using False by simp
qed

lemma LeafEq_spelled_out:
  "LeafEq a b \<longleftrightarrow>
     contents a = contents b \<and> length (fdes a) = length (fdes b) \<and>
     (\<forall>i < length (fdes a).
        length (fde_contents (fdes a ! i)) = length (fde_contents (fdes b ! i)) \<and>
        drop 8 (fde_contents (fdes a ! i)) = drop 8 (fde_contents (fdes b ! i)))"
  unfolding LeafEq_def by (auto simp: list_all_iff)

text \<open>
  Keys that are equal under \<^verbatim>\<open>LeafEq\<close> have the same hash, so the table finds the entry
  of an equal key whatever its buckets are.
\<close>

lemma LeafHasher_fdes_key:
  "map (\<lambda>fde. (length (fde_contents fde), drop 8 (fde_contents fde))) fs =
   map (\<lambda>fde. (length (fde_contents fde), drop 8 (fde_contents fde))) gs \<Longrightarrow>
   LeafHasher_fdes std_hash fs h = LeafHasher_fdes std_hash gs h"
proof (induction fs arbitrary: gs h)
  case Nil
  then show ?case by simp
next
  case (Cons f fs)
  then obtain g gs' where gs: "gs = g # gs'" by (cases gs) auto
  from Cons.prems have e: "length (fde_contents f) = length (fde_contents g)"
    "drop 8 (fde_contents f) = drop 8 (fde_contents g)"
    and r: "map (\<lambda>fde. (length (fde_contents fde), drop 8 (fde_contents fde))) fs =
            map (\<lambda>fde. (length (fde_contents fde), drop 8 (fde_contents fde))) gs'"
    unfolding gs by simp_all
  show ?case
    unfolding gs using e Cons.IH [OF r] by (simp add: Let_def)
qed

lemma LeafEq_LeafHasher:
  "LeafEq a b \<Longrightarrow> LeafHasher std_hash a = LeafHasher std_hash b"
  unfolding LeafEq_leaf_key leaf_key_def LeafHasher_def
  by (auto intro: LeafHasher_fdes_key)

lemma static_eq_refl [simp]: "static_eq a a"
  by (simp add: static_eq_def)

lemma static_eq_trans: "static_eq a b \<Longrightarrow> static_eq b c \<Longrightarrow> static_eq a c"
  by (simp add: static_eq_def)

lemma static_eq_flags [simp]:
  "static_eq (a\<lparr>icf_leaf := x\<rparr>) b = static_eq a b"
  "static_eq (a\<lparr>icf_eligible := y\<rparr>) b = static_eq a b"
  "static_eq (a\<lparr>leader := z\<rparr>) b = static_eq a b"
  by (simp_all add: static_eq_def)

lemma static_eq_is_eligible: "static_eq a b \<Longrightarrow> is_eligible a = is_eligible b"
  by (simp add: static_eq_def is_eligible_def)

lemma static_eq_is_leaf: "static_eq a b \<Longrightarrow> is_leaf a = is_leaf b"
  by (simp add: static_eq_def is_leaf_def)

lemma static_eq_leaf_key: "static_eq a b \<Longrightarrow> leaf_key a = leaf_key b"
  by (simp add: static_eq_def leaf_key_def)

lemma static_eq_LeafHasher: "static_eq a b \<Longrightarrow> LeafHasher f a = LeafHasher f b"
  by (simp add: static_eq_def LeafHasher_def)

lemma static_eq_priority: "static_eq a b \<Longrightarrow> get_priority a = get_priority b"
  by (simp add: static_eq_def)

lemma leaf_map_find_static:
  assumes "\<forall>q. static_eq (h q) (h0 q)"
  shows "leaf_map_find std_hash h m p =
     (case LeafHasher std_hash (h0 p) of
        None \<Rightarrow> None
      | Some _ \<Rightarrow> Some (find (\<lambda>(k, v). leaf_key (h0 k) = leaf_key (h0 p)) m))"
proof -
  have e1: "LeafHasher std_hash (h p) = LeafHasher std_hash (h0 p)"
    using assms by (simp add: static_eq_LeafHasher)
  have lk: "leaf_key (h q) = leaf_key (h0 q)" for q
    using assms static_eq_leaf_key by blast
  have e2: "(\<lambda>(k, v). LeafEq (h k) (h p)) = (\<lambda>(k, v). leaf_key (h0 k) = leaf_key (h0 p))"
    by (simp add: LeafEq_leaf_key lk)
  show ?thesis
    unfolding leaf_map_find_def e1 e2 ..
qed

lemma map_inv_empty: "map_inv std_hash h0 {} []"
  by (simp add: map_inv_def)

lemma map_inv_insert:
  assumes inv: "map_inv std_hash h0 A m"
    and st: "\<forall>q. static_eq (h q) (h0 q)"
    and ins: "leaf_map_insert std_hash h m p = Some m'"
  shows "map_inv std_hash h0 (insert p A) m'"
proof -
  let ?P = "\<lambda>(k, v). leaf_key (h0 k) = leaf_key (h0 p)"
  from ins obtain x where hx: "LeafHasher std_hash (h0 p) = Some x"
    by (auto simp: leaf_map_insert_def leaf_map_find_static [OF st] split: option.splits)
  have fnd: "leaf_map_find std_hash h m p = Some (find ?P m)"
    by (simp add: leaf_map_find_static [OF st] hx)
  have pr: "get_priority (h q) = get_priority (h0 q)" for q
    using st by (simp add: static_eq_priority)
  from inv have i1: "\<And>k v. (k, v) \<in> set m \<Longrightarrow> k \<in> A \<and> v \<in> A \<and> leaf_key (h0 k) = leaf_key (h0 v)"
    and i2: "\<And>q. q \<in> A \<Longrightarrow> \<exists>(k, v) \<in> set m. leaf_key (h0 k) = leaf_key (h0 q)"
    and i3: "\<And>k v q. (k, v) \<in> set m \<Longrightarrow> q \<in> A \<Longrightarrow> leaf_key (h0 k) = leaf_key (h0 q) \<Longrightarrow>
        sint (get_priority (h0 v)) \<le> sint (get_priority (h0 q))"
    and i4: "\<And>q. q \<in> A \<Longrightarrow> LeafHasher std_hash (h0 q) \<noteq> None"
    and i5: "distinct (map (\<lambda>kv. leaf_key (h0 (fst kv))) m)"
    unfolding map_inv_def by blast+
  show ?thesis
  proof (cases "find ?P m")
    case None
    then have no: "\<And>k v. (k, v) \<in> set m \<Longrightarrow> leaf_key (h0 k) \<noteq> leaf_key (h0 p)"
      by (auto simp: find_None_iff)
    have m': "m' = m @ [(p, p)]"
      using ins by (simp add: leaf_map_insert_def fnd None)
    have nocls: "\<And>q. q \<in> A \<Longrightarrow> leaf_key (h0 q) \<noteq> leaf_key (h0 p)"
    proof
      fix q assume q: "q \<in> A" and e: "leaf_key (h0 q) = leaf_key (h0 p)"
      from i2 [OF q] obtain k v where "(k, v) \<in> set m" "leaf_key (h0 k) = leaf_key (h0 q)"
        by blast
      with no e show False by force
    qed
    show ?thesis
      unfolding map_inv_def m'
    proof (intro conjI)
      show "\<forall>(k, v)\<in>set (m @ [(p, p)]). k \<in> insert p A \<and> v \<in> insert p A \<and>
              leaf_key (h0 k) = leaf_key (h0 v)"
        using i1 by auto
      show "\<forall>q\<in>insert p A. \<exists>(k, v)\<in>set (m @ [(p, p)]). leaf_key (h0 k) = leaf_key (h0 q)"
        using i2 by fastforce
      show "\<forall>(k, v)\<in>set (m @ [(p, p)]). \<forall>q\<in>insert p A.
              leaf_key (h0 k) = leaf_key (h0 q) \<longrightarrow>
              sint (get_priority (h0 v)) \<le> sint (get_priority (h0 q))"
        using i3 no nocls by (auto simp: eq_commute)
      show "\<forall>q\<in>insert p A. LeafHasher std_hash (h0 q) \<noteq> None"
        using i4 hx by auto
      have "leaf_key (h0 p) \<notin> (\<lambda>kv. leaf_key (h0 (fst kv))) ` set m"
      proof
        assume "leaf_key (h0 p) \<in> (\<lambda>kv. leaf_key (h0 (fst kv))) ` set m"
        then obtain kv where "kv \<in> set m" "leaf_key (h0 p) = leaf_key (h0 (fst kv))"
          by blast
        then show False using no [of "fst kv" "snd kv"] by simp
      qed
      then show "distinct (map (\<lambda>kv. leaf_key (h0 (fst kv))) (m @ [(p, p)]))"
        using i5 by simp
    qed
  next
    case (Some kv)
    obtain k v where kv: "kv = (k, v)" by (cases kv)
    have mem: "(k, v) \<in> set m" and kp: "leaf_key (h0 k) = leaf_key (h0 p)"
      using Some unfolding kv by (auto simp: find_Some_iff in_set_conv_nth)
    have vA: "v \<in> A" and kv_key: "leaf_key (h0 k) = leaf_key (h0 v)"
      using i1 [OF mem] by simp_all
    show ?thesis
    proof (cases "sint (get_priority (h0 p)) < sint (get_priority (h0 v))")
      case True
      have m': "m' = map (\<lambda>(k', v'). if k' = k then (k', p) else (k', v')) m"
        using ins True by (simp add: leaf_map_insert_def fnd Some kv pr)
      have ent: "\<And>k' v'. (k', v') \<in> set m' \<Longrightarrow>
          (k' = k \<and> v' = p \<and> (\<exists>w. (k, w) \<in> set m)) \<or> (k' \<noteq> k \<and> (k', v') \<in> set m)"
        unfolding m' by (auto split: if_splits)
      have keys: "\<exists>w. (k', w) \<in> set m'" if "(k', v') \<in> set m" for k' v'
      proof -
        have "(\<lambda>(k', v'). if k' = k then (k', p) else (k', v')) (k', v') \<in> set m'"
          unfolding m' set_map using that by (rule imageI)
        then show ?thesis by (cases "k' = k") auto
      qed
      have pmin: "\<And>q. q \<in> A \<Longrightarrow> leaf_key (h0 k) = leaf_key (h0 q) \<Longrightarrow>
          sint (get_priority (h0 p)) \<le> sint (get_priority (h0 q))"
        using i3 [OF mem] True by fastforce
      show ?thesis
        unfolding map_inv_def
      proof (intro conjI)
        show "\<forall>(k', v')\<in>set m'. k' \<in> insert p A \<and> v' \<in> insert p A \<and>
                leaf_key (h0 k') = leaf_key (h0 v')"
          using ent i1 kp by fastforce
        show "\<forall>q\<in>insert p A. \<exists>(k', v')\<in>set m'. leaf_key (h0 k') = leaf_key (h0 q)"
        proof
          fix q assume "q \<in> insert p A"
          then have "\<exists>(k', v') \<in> set m. leaf_key (h0 k') = leaf_key (h0 q)"
            using i2 mem kp by auto
          then obtain k' v' where "(k', v') \<in> set m" "leaf_key (h0 k') = leaf_key (h0 q)"
            by blast
          with keys show "\<exists>(k', v')\<in>set m'. leaf_key (h0 k') = leaf_key (h0 q)"
            by fastforce
        qed
        show "\<forall>(k', v')\<in>set m'. \<forall>q\<in>insert p A.
                leaf_key (h0 k') = leaf_key (h0 q) \<longrightarrow>
                sint (get_priority (h0 v')) \<le> sint (get_priority (h0 q))"
        proof (intro ballI impI, clarify)
          fix k' v' q
          assume e: "(k', v') \<in> set m'" and q: "q \<in> insert p A"
            and kq: "leaf_key (h0 k') = leaf_key (h0 q)"
          from ent [OF e] show "sint (get_priority (h0 v')) \<le> sint (get_priority (h0 q))"
          proof
            assume a: "k' = k \<and> v' = p \<and> (\<exists>w. (k, w) \<in> set m)"
            show ?thesis
            proof (cases "q = p")
              case True with a show ?thesis by simp
            next
              case False
              with q have "q \<in> A" by simp
              with pmin kq a show ?thesis by simp
            qed
          next
            assume a: "k' \<noteq> k \<and> (k', v') \<in> set m"
            show ?thesis
            proof (cases "q = p")
              case True
              have "leaf_key (h0 (fst (k', v'))) = leaf_key (h0 (fst (k, v)))"
                using kq kp True by simp
              then have "(k', v') = (k, v)"
                using i5 a mem by (meson distinct_map inj_onD)
              with a show ?thesis by simp
            next
              case False
              with q have "q \<in> A" by simp
              with i3 a kq show ?thesis by blast
            qed
          qed
        qed
        show "\<forall>q\<in>insert p A. LeafHasher std_hash (h0 q) \<noteq> None"
          using i4 hx by auto
        have "map (\<lambda>kv. leaf_key (h0 (fst kv))) m' = map (\<lambda>kv. leaf_key (h0 (fst kv))) m"
          unfolding m' by (induction m) auto
        then show "distinct (map (\<lambda>kv. leaf_key (h0 (fst kv))) m')"
          using i5 by simp
      qed
    next
      case False
      have m': "m' = m"
        using ins False by (simp add: leaf_map_insert_def fnd Some kv pr)
      have pv: "sint (get_priority (h0 v)) \<le> sint (get_priority (h0 p))"
        using False by simp
      show ?thesis
        unfolding map_inv_def m'
      proof (intro conjI)
        show "\<forall>(k', v')\<in>set m. k' \<in> insert p A \<and> v' \<in> insert p A \<and>
                leaf_key (h0 k') = leaf_key (h0 v')"
          using i1 by auto
        show "\<forall>q\<in>insert p A. \<exists>(k', v')\<in>set m. leaf_key (h0 k') = leaf_key (h0 q)"
          using i2 mem kp by auto
        show "\<forall>(k', v')\<in>set m. \<forall>q\<in>insert p A.
                leaf_key (h0 k') = leaf_key (h0 q) \<longrightarrow>
                sint (get_priority (h0 v')) \<le> sint (get_priority (h0 q))"
        proof (intro ballI impI, clarify)
          fix k' v' q
          assume e: "(k', v') \<in> set m" and q: "q \<in> insert p A"
            and kq: "leaf_key (h0 k') = leaf_key (h0 q)"
          show "sint (get_priority (h0 v')) \<le> sint (get_priority (h0 q))"
          proof (cases "q = p")
            case True
            have "sint (get_priority (h0 v')) \<le> sint (get_priority (h0 v))"
              using i3 [OF e vA] kq kp kv_key True by simp
            with pv True show ?thesis by simp
          next
            case False
            with q have "q \<in> A" by simp
            with i3 [OF e] kq show ?thesis by blast
          qed
        qed
        show "\<forall>q\<in>insert p A. LeafHasher std_hash (h0 q) \<noteq> None"
          using i4 hx by auto
        show "distinct (map (\<lambda>kv. leaf_key (h0 (fst kv))) m)"
          by (rule i5)
      qed
    qed
  qed
qed

lemma fold_opt_append:
  "fold_opt g (xs @ ys) s = (case fold_opt g xs s of None \<Rightarrow> None | Some s' \<Rightarrow> fold_opt g ys s')"
  by (induction xs arbitrary: s) (simp_all split: option.splits)

lemma fold_opt_nested:
  "fold_opt (\<lambda>f. fold_opt g (sel f)) fs s = fold_opt g (concat (map sel fs)) s"
  by (induction fs arbitrary: s) (simp_all add: fold_opt_append split: option.splits)

lemma leaves_of_snoc_None: "leaves_of h0 (L @ [None]) = leaves_of h0 L"
  by (auto simp: leaves_of_def)

lemma leaves_of_snoc_Some:
  "leaves_of h0 (L @ [Some p]) =
     (if is_eligible (h0 p) \<and> is_leaf (h0 p) then insert p (leaves_of h0 L) else leaves_of h0 L)"
  by (auto simp: leaves_of_def)

lemma leaf_visit_step:
  assumes inv: "visit_inv std_hash h0 L st"
    and run: "leaf_visit std_hash po st = Some st'"
  shows "visit_inv std_hash h0 (L @ [po]) st'"
proof -
  obtain h m where st: "st = (h, m)" by (cases st)
  from inv have stat: "\<forall>q. static_eq (h q) (h0 q)"
    and mi: "map_inv std_hash h0 (leaves_of h0 L) m"
    and fields: "\<And>q. leader (h q) = leader (h0 q) \<and>
          icf_leaf (h q) = (icf_leaf (h0 q) \<or> q \<in> leaves_of h0 L) \<and>
          icf_eligible (h q) =
            (icf_eligible (h0 q) \<or> (Some q \<in> set L \<and> is_eligible (h0 q) \<and> \<not> is_leaf (h0 q)))"
    unfolding visit_inv_def st by simp_all
  have el: "is_eligible (h q) = is_eligible (h0 q)" and lf: "is_leaf (h q) = is_leaf (h0 q)" for q
    using stat static_eq_is_eligible static_eq_is_leaf by blast+
  show ?thesis
  proof (cases po)
    case None
    then have "st' = st" using run by (simp add: leaf_visit_def st)
    then show ?thesis
      using inv unfolding None visit_inv_def leaves_of_snoc_None by simp
  next
    case (Some p)
    show ?thesis
    proof (cases "is_eligible (h0 p)")
      case False
      then have "st' = st" using run by (simp add: leaf_visit_def st Some el)
      then show ?thesis
        using inv False unfolding Some visit_inv_def leaves_of_snoc_Some by auto
    next
      case True
      show ?thesis
      proof (cases "is_leaf (h0 p)")
        case leaf: True
        let ?h = "h(p := (h p)\<lparr>icf_leaf := True\<rparr>)"
        from run obtain m' where ins: "leaf_map_insert std_hash ?h m p = Some m'"
          and st': "st' = (?h, m')"
          by (auto simp: leaf_visit_def st Some el lf True leaf Let_def)
        have stat': "\<forall>q. static_eq (?h q) (h0 q)"
          using stat by simp
        have "map_inv std_hash h0 (insert p (leaves_of h0 L)) m'"
          using mi stat' ins by (rule map_inv_insert)
        then show ?thesis
          unfolding visit_inv_def st' Some leaves_of_snoc_Some
          using stat' fields True leaf by auto
      next
        case noleaf: False
        have st': "st' = (h(p := (h p)\<lparr>icf_eligible := True\<rparr>), m)"
          using run by (simp add: leaf_visit_def st Some el lf True noleaf)
        show ?thesis
          unfolding visit_inv_def st' Some leaves_of_snoc_Some
          using stat fields mi True noleaf by auto
      qed
    qed
  qed
qed

lemma leaf_visit_total:
  assumes inv: "visit_inv std_hash h0 L st"
    and ok: "\<forall>p. po = Some p \<and> is_eligible (h0 p) \<and> is_leaf (h0 p) \<longrightarrow>
               LeafHasher std_hash (h0 p) \<noteq> None"
  shows "leaf_visit std_hash po st \<noteq> None"
proof -
  obtain h m where st: "st = (h, m)" by (cases st)
  from inv have stat: "\<forall>q. static_eq (h q) (h0 q)"
    unfolding visit_inv_def st by simp
  have el: "is_eligible (h q) = is_eligible (h0 q)" and lf: "is_leaf (h q) = is_leaf (h0 q)" for q
    using stat static_eq_is_eligible static_eq_is_leaf by blast+
  show ?thesis
  proof (cases po)
    case None
    then show ?thesis by (simp add: leaf_visit_def st)
  next
    case (Some p)
    let ?h = "h(p := (h p)\<lparr>icf_leaf := True\<rparr>)"
    have stat': "\<forall>q. static_eq (?h q) (h0 q)"
      using stat by simp
    have "leaf_map_insert std_hash ?h m p \<noteq> None"
      if "is_eligible (h0 p)" "is_leaf (h0 p)"
      using ok that Some
      by (auto simp: leaf_map_insert_def leaf_map_find_static [OF stat'] split: option.splits)
    then show ?thesis
      by (auto simp: leaf_visit_def st Some el lf Let_def)
  qed
qed

lemma leaf_visit_fold:
  assumes "visit_inv std_hash h0 L st"
    and "fold_opt (leaf_visit std_hash) xs st = Some st'"
  shows "visit_inv std_hash h0 (L @ xs) st'"
  using assms
proof (induction xs arbitrary: L st)
  case Nil
  then show ?case by simp
next
  case (Cons x xs)
  from Cons.prems(2) obtain st1 where s1: "leaf_visit std_hash x st = Some st1"
    and s2: "fold_opt (leaf_visit std_hash) xs st1 = Some st'"
    by (auto split: option.splits)
  have "visit_inv std_hash h0 (L @ [x]) st1"
    using Cons.prems(1) s1 by (rule leaf_visit_step)
  then have "visit_inv std_hash h0 ((L @ [x]) @ xs) st'"
    using s2 by (rule Cons.IH)
  then show ?case by simp
qed

lemma leaf_visit_fold_total:
  assumes "visit_inv std_hash h0 L st"
    and "\<forall>p. Some p \<in> set xs \<and> is_eligible (h0 p) \<and> is_leaf (h0 p) \<longrightarrow>
           LeafHasher std_hash (h0 p) \<noteq> None"
  shows "fold_opt (leaf_visit std_hash) xs st \<noteq> None"
  using assms
proof (induction xs arbitrary: L st)
  case Nil
  then show ?case by simp
next
  case (Cons x xs)
  have "leaf_visit std_hash x st \<noteq> None"
    using Cons.prems(1) by (rule leaf_visit_total) (use Cons.prems(2) in auto)
  then obtain st1 where s1: "leaf_visit std_hash x st = Some st1" by auto
  have "visit_inv std_hash h0 (L @ [x]) st1"
    using Cons.prems(1) s1 by (rule leaf_visit_step)
  then have "fold_opt (leaf_visit std_hash) xs st1 \<noteq> None"
    by (rule Cons.IH) (use Cons.prems(2) in auto)
  then show ?case by (simp add: s1)
qed

lemma leaf_assign_step:
  assumes inv: "assign_inv h0 h1 m L h"
    and run: "leaf_assign std_hash m po h = Some h'"
  shows "assign_inv h0 h1 m (L @ [po]) h'"
proof -
  from inv have stat: "\<forall>q. static_eq (h q) (h0 q)"
    unfolding assign_inv_def by simp
  from inv have lf: "icf_leaf (h q) = icf_leaf (h1 q)" for q
    unfolding assign_inv_def by simp
  show ?thesis
  proof (cases po)
    case None
    then have "h' = h" using run by (simp add: leaf_assign_def)
    then show ?thesis using inv unfolding None assign_inv_def by simp
  next
    case (Some p)
    show ?thesis
    proof (cases "icf_leaf (h1 p)")
      case False
      then have "h' = h" using run by (simp add: leaf_assign_def Some lf)
      then show ?thesis using inv False unfolding Some assign_inv_def by auto
    next
      case True
      from run obtain k v where
        fnd: "find (\<lambda>(k, v). leaf_key (h0 k) = leaf_key (h0 p)) m = Some (k, v)"
        and h': "h' = h(p := (h p)\<lparr>leader := Some v\<rparr>)"
        by (auto simp: leaf_assign_def Some lf True leaf_map_find_static [OF stat]
            split: option.splits)
      show ?thesis
        unfolding assign_inv_def h' Some
        using inv True fnd unfolding assign_inv_def by auto
    qed
  qed
qed

lemma leaf_assign_total:
  assumes inv: "assign_inv h0 h1 m L h"
    and ok: "\<forall>p. po = Some p \<and> icf_leaf (h1 p) \<longrightarrow>
       LeafHasher std_hash (h0 p) \<noteq> None \<and>
       find (\<lambda>(k, v). leaf_key (h0 k) = leaf_key (h0 p)) m \<noteq> None"
  shows "leaf_assign std_hash m po h \<noteq> None"
proof -
  from inv have stat: "\<forall>q. static_eq (h q) (h0 q)"
    unfolding assign_inv_def by simp
  from inv have lf: "icf_leaf (h q) = icf_leaf (h1 q)" for q
    unfolding assign_inv_def by simp
  show ?thesis
    using ok
    by (cases po)
      (auto simp: leaf_assign_def lf leaf_map_find_static [OF stat] split: option.splits)
qed

lemma leaf_assign_fold:
  assumes "assign_inv h0 h1 m L h"
    and "fold_opt (leaf_assign std_hash m) xs h = Some h'"
  shows "assign_inv h0 h1 m (L @ xs) h'"
  using assms
proof (induction xs arbitrary: L h)
  case Nil
  then show ?case by simp
next
  case (Cons x xs)
  from Cons.prems(2) obtain h2 where s1: "leaf_assign std_hash m x h = Some h2"
    and s2: "fold_opt (leaf_assign std_hash m) xs h2 = Some h'"
    by (auto split: option.splits)
  have "assign_inv h0 h1 m (L @ [x]) h2"
    using Cons.prems(1) s1 by (rule leaf_assign_step)
  then have "assign_inv h0 h1 m ((L @ [x]) @ xs) h'"
    using s2 by (rule Cons.IH)
  then show ?case by simp
qed

lemma leaf_assign_fold_total:
  assumes "assign_inv h0 h1 m L h"
    and "\<forall>p. Some p \<in> set xs \<and> icf_leaf (h1 p) \<longrightarrow>
       LeafHasher std_hash (h0 p) \<noteq> None \<and>
       find (\<lambda>(k, v). leaf_key (h0 k) = leaf_key (h0 p)) m \<noteq> None"
  shows "fold_opt (leaf_assign std_hash m) xs h \<noteq> None"
  using assms
proof (induction xs arbitrary: L h)
  case Nil
  then show ?case by simp
next
  case (Cons x xs)
  have "leaf_assign std_hash m x h \<noteq> None"
    using Cons.prems(1) by (rule leaf_assign_total) (use Cons.prems(2) in auto)
  then obtain h2 where s1: "leaf_assign std_hash m x h = Some h2" by auto
  have "assign_inv h0 h1 m (L @ [x]) h2"
    using Cons.prems(1) s1 by (rule leaf_assign_step)
  then have "fold_opt (leaf_assign std_hash m) xs h2 \<noteq> None"
    by (rule Cons.IH) (use Cons.prems(2) in auto)
  then show ?case by (simp add: s1)
qed

lemma visit_inv_start: "visit_inv std_hash h0 [] (h0, [])"
  by (simp add: visit_inv_def leaves_of_def map_inv_empty)

lemma assign_inv_start:
  "\<forall>q. static_eq (h1 q) (h0 q) \<Longrightarrow> assign_inv h0 h1 m [] h1"
  by (simp add: assign_inv_def)

lemma leaf_pass_result:
  assumes "leaf_pass std_hash c = Some c'"
  shows "\<exists>m. map_inv std_hash (isecs c) (leaves_of (isecs c) (input_sections c)) m \<and>
     objs c' = objs c \<and> syms c' = syms c \<and>
     (\<forall>q. static_eq (isecs c' q) (isecs c q) \<and>
        icf_leaf (isecs c' q) =
          (icf_leaf (isecs c q) \<or> q \<in> leaves_of (isecs c) (input_sections c)) \<and>
        icf_eligible (isecs c' q) =
          (icf_eligible (isecs c q) \<or>
           (Some q \<in> set (input_sections c) \<and> is_eligible (isecs c q) \<and>
            \<not> is_leaf (isecs c q))) \<and>
        leader (isecs c' q) =
          (if Some q \<in> set (input_sections c) \<and>
              (icf_leaf (isecs c q) \<or> q \<in> leaves_of (isecs c) (input_sections c))
           then map_option snd
                  (find (\<lambda>(k, v). leaf_key (isecs c k) = leaf_key (isecs c q)) m)
           else leader (isecs c q)))"
proof -
  let ?S = "input_sections c"
  from assms obtain h1 m h2 where
    l1: "fold_opt (leaf_visit std_hash) ?S (isecs c, []) = Some (h1, m)"
    and l2: "fold_opt (leaf_assign std_hash m) ?S h1 = Some h2"
    and c': "c' = c\<lparr>isecs := h2\<rparr>"
    unfolding leaf_pass_def fold_opt_nested input_sections_def
    by (auto split: option.splits)
  have v: "visit_inv std_hash (isecs c) ([] @ ?S) (h1, m)"
    using visit_inv_start l1 by (rule leaf_visit_fold)
  then have stat1: "\<forall>q. static_eq (h1 q) (isecs c q)"
    unfolding visit_inv_def by simp
  have a: "assign_inv (isecs c) h1 m ([] @ ?S) h2"
    using assign_inv_start [OF stat1] l2 by (rule leaf_assign_fold)
  show ?thesis
    using v a unfolding visit_inv_def assign_inv_def c'
    by (intro exI [of _ m]) auto
qed

lemma LeafHasher_fdes_total:
  "\<forall>fde \<in> set fs. 8 \<le> length (fde_contents fde) \<Longrightarrow> LeafHasher_fdes std_hash fs h \<noteq> None"
  by (induction fs arbitrary: h) (simp_all add: Let_def)

lemma leaf_pass_total:
  assumes fresh: "\<forall>p. Some p \<in> set (input_sections c) \<longrightarrow> \<not> icf_leaf (isecs c p)"
    and sizes: "\<forall>p. Some p \<in> set (input_sections c) \<and> is_eligible (isecs c p) \<and>
        is_leaf (isecs c p) \<longrightarrow>
        (\<forall>fde \<in> set (fdes (isecs c p)). 8 \<le> length (fde_contents fde))"
  shows "leaf_pass std_hash c \<noteq> None"
proof -
  let ?S = "input_sections c"
  let ?h0 = "isecs c"
  have hashable: "\<forall>p. Some p \<in> set ?S \<and> is_eligible (?h0 p) \<and> is_leaf (?h0 p) \<longrightarrow>
      LeafHasher std_hash (?h0 p) \<noteq> None"
    using sizes by (simp add: LeafHasher_def LeafHasher_fdes_total)
  have "fold_opt (leaf_visit std_hash) ?S (?h0, []) \<noteq> None"
    using visit_inv_start hashable by (rule leaf_visit_fold_total)
  then obtain h1 m where l1: "fold_opt (leaf_visit std_hash) ?S (?h0, []) = Some (h1, m)"
    by auto
  have v: "visit_inv std_hash ?h0 ([] @ ?S) (h1, m)"
    using visit_inv_start l1 by (rule leaf_visit_fold)
  then have stat1: "\<forall>q. static_eq (h1 q) (?h0 q)"
    and lf: "\<And>q. icf_leaf (h1 q) = (icf_leaf (?h0 q) \<or> q \<in> leaves_of ?h0 ?S)"
    and mi: "map_inv std_hash ?h0 (leaves_of ?h0 ?S) m"
    unfolding visit_inv_def by simp_all
  have found: "LeafHasher std_hash (?h0 p) \<noteq> None \<and>
       find (\<lambda>(k, v). leaf_key (?h0 k) = leaf_key (?h0 p)) m \<noteq> None"
    if "Some p \<in> set ?S" "icf_leaf (h1 p)" for p
  proof -
    have p: "p \<in> leaves_of ?h0 ?S"
      using that fresh lf by auto
    then have "\<exists>(k, v) \<in> set m. leaf_key (?h0 k) = leaf_key (?h0 p)"
      using mi unfolding map_inv_def by blast
    then have "find (\<lambda>(k, v). leaf_key (?h0 k) = leaf_key (?h0 p)) m \<noteq> None"
      by (auto simp: find_None_iff)
    moreover have "LeafHasher std_hash (?h0 p) \<noteq> None"
      using p mi unfolding map_inv_def by blast
    ultimately show ?thesis by simp
  qed
  have "fold_opt (leaf_assign std_hash m) ?S h1 \<noteq> None"
    using assign_inv_start [OF stat1]
    by (rule leaf_assign_fold_total) (use found in blast)
  then show ?thesis
    unfolding leaf_pass_def fold_opt_nested
    using l1 by (auto simp: input_sections_def)
qed

lemma fill_sections_eligible:
  assumes "fill_sections h xs idx secs = Some secs'"
    and "\<forall>x \<in> set secs. x = None \<or> eligible_ptr h x"
  shows "\<forall>x \<in> set secs'. x = None \<or> eligible_ptr h x"
  using assms
proof (induction xs arbitrary: idx secs)
  case Nil
  then show ?case by simp
next
  case (Cons x xs)
  show ?case
  proof (cases "eligible_ptr h x")
    case True
    with Cons.prems(1) have i: "idx < length secs"
      and r: "fill_sections h xs (idx + 1) (secs[idx := x]) = Some secs'"
      by (auto split: if_splits)
    have "\<forall>y \<in> set (secs[idx := x]). y = None \<or> eligible_ptr h y"
      using Cons.prems(2) True set_update_subset_insert [of secs idx x] by auto
    with r show ?thesis by (rule Cons.IH)
  next
    case False
    with Cons.prems(1) have "fill_sections h xs idx secs = Some secs'" by simp
    then show ?thesis using Cons.prems(2) by (rule Cons.IH)
  qed
qed

lemma fill_files_eligible:
  assumes "fill_files h fs section_indices i secs = Some secs'"
    and "\<forall>x \<in> set secs. x = None \<or> eligible_ptr h x"
  shows "\<forall>x \<in> set secs'. x = None \<or> eligible_ptr h x"
  using assms
proof (induction fs arbitrary: i secs)
  case Nil
  then show ?case by simp
next
  case (Cons f fs)
  from Cons.prems(1) obtain s1 where
    a: "fill_sections h (sections f) (section_indices ! i) secs = Some s1"
    and b: "fill_files h fs section_indices (i + 1) s1 = Some secs'"
    by (auto split: if_splits option.splits)
  have "\<forall>x \<in> set s1. x = None \<or> eligible_ptr h x"
    using a Cons.prems(2) by (rule fill_sections_eligible)
  with b show ?case by (rule Cons.IH)
qed

lemma assign_icf_idx_result:
  assumes "assign_icf_idx secs i h = Some h'"
  shows "None \<notin> set secs \<and>
     (\<forall>q. leader (h' q) = leader (h q) \<and> icf_eligible (h' q) = icf_eligible (h q) \<and>
          is_dead (h' q) = is_dead (h q))"
  using assms
proof (induction secs arbitrary: i h)
  case Nil
  then show ?case by simp
next
  case (Cons x secs)
  show ?case
  proof (cases x)
    case None
    with Cons.prems show ?thesis by simp
  next
    case (Some p)
    let ?h = "h(p := (h p)\<lparr>icf_idx := i\<rparr>)"
    have r: "assign_icf_idx secs (i + 1) ?h = Some h'"
      using Cons.prems unfolding Some by simp
    have ih: "None \<notin> set secs \<and>
     (\<forall>q. leader (h' q) = leader (?h q) \<and> icf_eligible (h' q) = icf_eligible (?h q) \<and>
          is_dead (h' q) = is_dead (?h q))"
      using r by (rule Cons.IH)
    have "leader (?h q) = leader (h q) \<and> icf_eligible (?h q) = icf_eligible (h q) \<and>
          is_dead (?h q) = is_dead (h q)" for q
      by simp
    with ih show ?thesis
      unfolding Some by simp
  qed
qed

lemma gather_sections_result:
  assumes "gather_sections c = Some (c', secs)"
  shows "(\<forall>p \<in> set secs. icf_eligible (isecs c p)) \<and>
     objs c' = objs c \<and> syms c' = syms c \<and>
     (\<forall>q. leader (isecs c' q) = leader (isecs c q))"
proof -
  from assms obtain section_indices vec h where
    fill: "fill_files (isecs c) (objs c) section_indices 0
             (replicate (last section_indices +
                last (map (\<lambda>f. length (filter (eligible_ptr (isecs c)) (sections f)))
                        (objs c))) None) = Some vec"
    and asg: "assign_icf_idx vec 0 (isecs c) = Some h"
    and c': "c' = c\<lparr>isecs := h\<rparr>" and secs: "secs = map the vec"
    unfolding gather_sections_def Let_def
    by (auto split: option.splits if_splits)
  have good: "\<forall>x \<in> set vec. x = None \<or> eligible_ptr (isecs c) x"
    using fill by (rule fill_files_eligible) simp
  have nn: "None \<notin> set vec"
    and fr: "\<forall>q. leader (h q) = leader (isecs c q)"
    using assign_icf_idx_result [OF asg] by simp_all
  have "\<forall>p \<in> set secs. icf_eligible (isecs c p)"
  proof
    fix p assume "p \<in> set secs"
    then obtain x where x: "x \<in> set vec" "p = the x"
      unfolding secs by auto
    with nn obtain y where "x = Some y" by (cases x) auto
    with good x show "icf_eligible (isecs c p)"
      by (auto simp: eligible_ptr_def)
  qed
  then show ?thesis
    using fr by (simp add: c')
qed

lemma assign_run_frame:
  "q \<notin> set secs \<Longrightarrow> leader (assign_run digest secs i j h q) = leader (h q)"
proof (induction digest secs i j h rule: assign_run.induct)
  case (1 digest secs i j h)
  show ?case
  proof (cases "j < length secs \<and>
         digest ! icf_idx (h (secs ! i)) = digest ! icf_idx (h (secs ! j))")
    case True
    let ?h = "h(secs ! j := (h (secs ! j))\<lparr>leader := Some (secs ! i)\<rparr>)"
    have ne: "secs ! j \<noteq> q" using "1.prems" True by auto
    have "assign_run digest secs i j h = assign_run digest secs i (j + 1) ?h"
      using True by (subst assign_run.simps) simp
    moreover have "leader (assign_run digest secs i (j + 1) ?h q) = leader (?h q)"
      using True "1.prems" by (intro "1.IH") simp_all
    moreover have "leader (?h q) = leader (h q)"
      using ne by simp
    ultimately show ?thesis by simp
  next
    case False
    then have "assign_run digest secs i j h = h"
      by (subst assign_run.simps) (simp only: if_False)
    then show ?thesis by simp
  qed
qed

lemma elect_at_frame:
  assumes "q \<notin> set secs" and "i < length secs"
  shows "leader (elect_at digest secs i h q) = leader (h q)"
proof (cases "i = 0 \<or> digest ! icf_idx (h (secs ! (i - 1))) \<noteq> digest ! icf_idx (h (secs ! i))")
  case True
  let ?h = "h(secs ! i := (h (secs ! i))\<lparr>leader := Some (secs ! i)\<rparr>)"
  have ne: "secs ! i \<noteq> q" using assms by auto
  have "elect_at digest secs i h = assign_run digest secs i (i + 1) ?h"
    using True unfolding elect_at_def by (simp only: if_True)
  moreover have "leader (assign_run digest secs i (i + 1) ?h q) = leader (?h q)"
    using assms(1) by (rule assign_run_frame)
  moreover have "leader (?h q) = leader (h q)"
    using ne by simp
  ultimately show ?thesis by simp
next
  case False
  then have "elect_at digest secs i h = h"
    unfolding elect_at_def by (simp only: if_False)
  then show ?thesis by simp
qed

lemma fold_elect_at_frame:
  "q \<notin> set secs \<Longrightarrow> \<forall>i \<in> set is. i < length secs \<Longrightarrow>
   leader (fold (elect_at digest secs) is h q) = leader (h q)"
  by (induction "is" arbitrary: h) (simp_all add: elect_at_frame)

lemma elect_leaders_frame:
  "q \<notin> set secs \<Longrightarrow> leader (elect_leaders digest secs h q) = leader (h q)"
  unfolding elect_leaders_def by (rule fold_elect_at_frame) auto

text \<open>
  The run of the leaf pass in which no thread is interrupted is a run under a schedule: a
  thread that visits a section without interruption takes one, two or three steps, whose
  effect is that of \<open>leaf_visit\<close>; so \<open>leaf_pass\<close> and \<open>icf_sections\<close> give the
  result of one of the schedules.
\<close>

lemma find_key_map_of:
  assumes "find (\<lambda>(k, v). P k) m = Some (k, v)"
  shows "map_of m k = Some v"
proof -
  from assms have "P k" by (auto simp: find_Some_iff)
  with assms show ?thesis
    by (induction m) (auto split: if_splits)
qed

lemma leaf_run_append:
  "leaf_run std_hash (s1 @ s2) ts st =
     (case leaf_run std_hash s1 ts st of
        None \<Rightarrow> None
      | Some (ts', st') \<Rightarrow> leaf_run std_hash s2 ts' st')"
  by (induction s1 arbitrary: ts st) (simp_all split: option.splits)

lemma leaf_visit_is_run:
  assumes i: "i < length ts"
    and t: "ts ! i = \<lparr>todo = isec # rest, pending = Idle\<rparr>"
    and v: "leaf_visit std_hash isec st = Some st'"
  shows "\<exists>n. leaf_run std_hash (replicate n i) ts st =
               Some (ts[i := \<lparr>todo = rest, pending = Idle\<rparr>], st')"
proof -
  obtain h m where st: "st = (h, m)" by (cases st)
  let ?fin = "\<lparr>todo = rest, pending = Idle\<rparr>"
  show ?thesis
  proof (cases isec)
    case None
    then have "leaf_run std_hash (replicate 1 i) ts st = Some (ts[i := ?fin], st')"
      using i t v st by (simp add: leaf_visit_def leaf_thread_step_def)
    then show ?thesis by blast
  next
    case (Some p)
    show ?thesis
    proof (cases "is_eligible (h p) \<and> is_leaf (h p)")
      case False
      then have "leaf_run std_hash (replicate 1 i) ts st = Some (ts[i := ?fin], st')"
        using i t v st Some by (auto simp: leaf_visit_def leaf_thread_step_def)
      then show ?thesis by blast
    next
      case True
      let ?h = "h(p := (h p)\<lparr>icf_leaf := True\<rparr>)"
      from v st Some True obtain m' where
        ins: "leaf_map_insert std_hash ?h m p = Some m'" and st': "st' = (?h, m')"
        by (auto simp: leaf_visit_def Let_def)
      from ins obtain r where f: "leaf_map_find std_hash ?h m p = Some r"
        by (auto simp: leaf_map_insert_def split: option.splits)
      show ?thesis
      proof (cases r)
        case None
        then have "leaf_run std_hash (replicate 1 i) ts st = Some (ts[i := ?fin], st')"
          using i t st Some True ins f st'
          by (simp add: leaf_thread_step_def leaf_table_insert_def leaf_map_insert_def Let_def)
        then show ?thesis by blast
      next
        case (Some kv)
        then obtain k v where r: "r = Some (k, v)" by (cases kv) simp
        from f r have "find (\<lambda>(k, v). LeafEq (?h k) (?h p)) m = Some (k, v)"
          by (auto simp: leaf_map_find_def split: option.splits)
        then have mo: "map_of m k = Some v" by (rule find_key_map_of)
        let ?t1 = "\<lparr>todo = rest, pending = Testing p k\<rparr>"
        have s1: "leaf_thread_step std_hash (ts ! i) st = Some (?t1, ?h, m)"
          using t st \<open>isec = Some p\<close> True f r
          by (simp add: leaf_thread_step_def leaf_table_insert_def Let_def)
        show ?thesis
        proof (cases "sint (get_priority (?h p)) < sint (get_priority (?h v))")
          case False
          then have m': "m' = m"
            using ins f r by (simp add: leaf_map_insert_def)
          have s2: "leaf_thread_step std_hash ?t1 (?h, m) = Some (?fin, ?h, m)"
            using mo False by (simp add: leaf_thread_step_def)
          have "leaf_run std_hash (replicate 2 i) ts st = Some (ts[i := ?fin], st')"
            using i s1 s2 st' m' by (simp add: numeral_2_eq_2)
          then show ?thesis by blast
        next
          case lt: True
          then have m': "m' = leaf_table_store m k p"
            using ins f r by (simp add: leaf_map_insert_def leaf_table_store_def)
          let ?t2 = "\<lparr>todo = rest, pending = Storing p k\<rparr>"
          have s2: "leaf_thread_step std_hash ?t1 (?h, m) = Some (?t2, ?h, m)"
            using mo lt by (simp add: leaf_thread_step_def)
          have s3: "leaf_thread_step std_hash ?t2 (?h, m) = Some (?fin, ?h, m')"
            using m' by (simp add: leaf_thread_step_def)
          have "leaf_run std_hash (replicate 3 i) ts st = Some (ts[i := ?fin], st')"
            using i s1 s2 s3 st' by (simp add: numeral_3_eq_3)
          then show ?thesis by blast
        qed
      qed
    qed
  qed
qed

lemma leaf_visits_are_run:
  assumes "i < length ts"
    and "ts ! i = \<lparr>todo = xs, pending = Idle\<rparr>"
    and "fold_opt (leaf_visit std_hash) xs st = Some st'"
  shows "\<exists>sched. leaf_run std_hash sched ts st =
               Some (ts[i := \<lparr>todo = [], pending = Idle\<rparr>], st')"
  using assms
proof (induction xs arbitrary: ts st)
  case Nil
  then have "leaf_run std_hash [] ts st = Some (ts[i := \<lparr>todo = [], pending = Idle\<rparr>], st')"
    using list_update_id [of ts i] by simp
  then show ?case by blast
next
  case (Cons isec rest)
  from Cons.prems(3) obtain st1 where
    v: "leaf_visit std_hash isec st = Some st1"
    and r: "fold_opt (leaf_visit std_hash) rest st1 = Some st'"
    by (auto split: option.splits)
  let ?ts1 = "ts[i := \<lparr>todo = rest, pending = Idle\<rparr>]"
  from leaf_visit_is_run [OF Cons.prems(1,2) v] obtain n where
    r1: "leaf_run std_hash (replicate n i) ts st = Some (?ts1, st1)" by blast
  have "i < length ?ts1" "?ts1 ! i = \<lparr>todo = rest, pending = Idle\<rparr>"
    using Cons.prems(1) by simp_all
  from Cons.IH [OF this r] obtain sched where
    r2: "leaf_run std_hash sched ?ts1 st1 = Some (?ts1[i := \<lparr>todo = [], pending = Idle\<rparr>], st')"
    by blast
  have "leaf_run std_hash (replicate n i @ sched) ts st =
        Some (ts[i := \<lparr>todo = [], pending = Idle\<rparr>], st')"
    using r1 r2 by (simp add: leaf_run_append)
  then show ?case by blast
qed

lemma leaf_files_are_run:
  assumes "fold_opt (\<lambda>f. fold_opt (leaf_visit std_hash) (sections f)) fs st = Some st'"
  shows "\<exists>sched. leaf_run std_hash sched (pre @ leaf_threads fs) st =
               Some (pre @ map (\<lambda>f. \<lparr>todo = [], pending = Idle\<rparr>) fs, st')"
  using assms
proof (induction fs arbitrary: pre st)
  case Nil
  then have "leaf_run std_hash [] (pre @ leaf_threads []) st =
             Some (pre @ map (\<lambda>f. \<lparr>todo = [], pending = Idle\<rparr>) [], st')"
    by (simp add: leaf_threads_def)
  then show ?case by blast
next
  case (Cons f fs)
  from Cons.prems obtain st1 where
    v: "fold_opt (leaf_visit std_hash) (sections f) st = Some st1"
    and r: "fold_opt (\<lambda>f. fold_opt (leaf_visit std_hash) (sections f)) fs st1 = Some st'"
    by (auto split: option.splits)
  let ?ts = "pre @ leaf_threads (f # fs)"
  let ?fin = "\<lparr>todo = [], pending = Idle\<rparr>"
  have i: "length pre < length ?ts" by (simp add: leaf_threads_def)
  have t: "?ts ! length pre = \<lparr>todo = sections f, pending = Idle\<rparr>"
    by (simp add: leaf_threads_def)
  from leaf_visits_are_run [OF i t v] obtain s1 where
    r1: "leaf_run std_hash s1 ?ts st = Some (?ts[length pre := ?fin], st1)" by blast
  have upd: "?ts[length pre := ?fin] = (pre @ [?fin]) @ leaf_threads fs"
    by (simp add: leaf_threads_def)
  from Cons.IH [OF r, of "pre @ [?fin]"] obtain s2 where
    r2: "leaf_run std_hash s2 ((pre @ [?fin]) @ leaf_threads fs) st1 =
         Some ((pre @ [?fin]) @ map (\<lambda>f. ?fin) fs, st')" by blast
  have "leaf_run std_hash (s1 @ s2) ?ts st = Some (pre @ map (\<lambda>f. ?fin) (f # fs), st')"
    using r1 r2 unfolding upd by (simp add: leaf_run_append)
  then show ?case by blast
qed

lemma leaf_pass_is_a_schedule:
  assumes "leaf_pass std_hash c = Some c'"
  shows "\<exists>sched. leaf_pass_scheduled std_hash sched c = Some c'"
proof -
  from assms obtain h1 m where
    v: "fold_opt (\<lambda>f. fold_opt (leaf_visit std_hash) (sections f)) (objs c) (isecs c, []) =
        Some (h1, m)"
    and a: "(case fold_opt (\<lambda>f. fold_opt (leaf_assign std_hash m) (sections f)) (objs c) h1 of
               None \<Rightarrow> None
             | Some h2 \<Rightarrow> Some (c\<lparr>isecs := h2\<rparr>)) = Some c'"
    by (auto simp: leaf_pass_def split: option.splits)
  from leaf_files_are_run [OF v, of "[]"] obtain sched where
    r: "leaf_run std_hash sched (leaf_threads (objs c)) (isecs c, []) =
        Some (map (\<lambda>f. \<lparr>todo = [], pending = Idle\<rparr>) (objs c), h1, m)"
    by auto
  have "leaf_pass_scheduled std_hash sched c = Some c'"
    using r a by (simp add: leaf_pass_scheduled_def list_all_iff leaf_finished_def)
  then show ?thesis by blast
qed

lemma icf_sections_after_leaf_pass:
  "icf_sections fuel sha256 std_hash c0 =
     (case leaf_pass std_hash c0 of
        None \<Rightarrow> None
      | Some c1 \<Rightarrow> icf_after_leaf_pass fuel sha256 c1)"
  by (simp add: icf_sections_def icf_after_leaf_pass_def split: option.splits)

lemma icf_sections_is_a_schedule:
  assumes "icf_sections fuel sha256 std_hash c = Some c'"
  shows "\<exists>sched. icf_sections_scheduled fuel sha256 std_hash sched c = Some c'"
proof -
  from assms obtain c1 where lp: "leaf_pass std_hash c = Some c1"
    and r: "icf_after_leaf_pass fuel sha256 c1 = Some c'"
    by (auto simp: icf_sections_after_leaf_pass split: option.splits)
  from leaf_pass_is_a_schedule [OF lp] obtain sched where
    "leaf_pass_scheduled std_hash sched c = Some c1" by blast
  then have "icf_sections_scheduled fuel sha256 std_hash sched c = Some c'"
    using r by (simp add: icf_sections_scheduled_def)
  then show ?thesis by blast
qed

text \<open>
  The invariant of the first loop holds after every step of every thread, so after every
  schedule.
\<close>

lemma pending_inv_mono:
  "pending_inv h0 A m t \<Longrightarrow> A \<subseteq> A' \<Longrightarrow> fst ` set m \<subseteq> fst ` set m' \<Longrightarrow>
   pending_inv h0 A' m' t"
  unfolding pending_inv_def by (cases "pending t") auto

lemma pending_inv_Idle [simp]: "pending t = Idle \<Longrightarrow> pending_inv h0 A m t"
  by (simp add: pending_inv_def)

lemma leaf_table_store_fst: "map fst (leaf_table_store m k p) = map fst m"
  unfolding leaf_table_store_def by (induction m) auto

lemma leaf_table_store_keys:
  "map (\<lambda>kv. f (fst kv)) (leaf_table_store m k p) = map (\<lambda>kv. f (fst kv)) m"
  unfolding leaf_table_store_def by (induction m) auto

lemma leaf_table_store_set:
  "(k', v') \<in> set (leaf_table_store m k p) \<Longrightarrow>
     (k' = k \<and> v' = p) \<or> (k', v') \<in> set m"
  unfolding leaf_table_store_def by (auto split: if_splits)

lemma table_inv_store:
  assumes inv: "table_inv h0 A m" and p: "p \<in> A" and k: "k \<in> fst ` set m"
    and e: "leaf_key (h0 k) = leaf_key (h0 p)"
  shows "table_inv h0 A (leaf_table_store m k p)"
proof -
  let ?m = "leaf_table_store m k p"
  from inv have i1: "\<And>k v. (k, v) \<in> set m \<Longrightarrow> k \<in> A \<and> v \<in> A \<and> leaf_key (h0 k) = leaf_key (h0 v)"
    and i2: "\<And>q. q \<in> A \<Longrightarrow> \<exists>(k, v) \<in> set m. leaf_key (h0 k) = leaf_key (h0 q)"
    and i3: "distinct (map (\<lambda>kv. leaf_key (h0 (fst kv))) m)"
    unfolding table_inv_def by blast+
  have kA: "k \<in> A" using k i1 by fastforce
  have fs: "fst ` set ?m = fst ` set m"
    using leaf_table_store_fst [of m k p] by (metis set_map)
  have 1: "\<forall>(k', v') \<in> set ?m. k' \<in> A \<and> v' \<in> A \<and> leaf_key (h0 k') = leaf_key (h0 v')"
    using leaf_table_store_set [of _ _ m k p] i1 kA p e by fastforce
  have 2: "\<forall>q \<in> A. \<exists>(k', v') \<in> set ?m. leaf_key (h0 k') = leaf_key (h0 q)"
  proof
    fix q assume "q \<in> A"
    from i2 [OF this] obtain k' v' where "(k', v') \<in> set m" "leaf_key (h0 k') = leaf_key (h0 q)"
      by blast
    then have "k' \<in> fst ` set ?m" unfolding fs by force
    then obtain w where "(k', w) \<in> set ?m" by auto
    with \<open>leaf_key (h0 k') = leaf_key (h0 q)\<close>
    show "\<exists>(k', v') \<in> set ?m. leaf_key (h0 k') = leaf_key (h0 q)" by blast
  qed
  have 3: "distinct (map (\<lambda>kv. leaf_key (h0 (fst kv))) ?m)"
    using i3 leaf_table_store_keys [of "\<lambda>x. leaf_key (h0 x)" m k p] by simp
  from 1 2 3 show ?thesis unfolding table_inv_def by blast
qed

lemma table_inv_insert:
  assumes inv: "table_inv h0 A m"
    and st: "\<forall>q. static_eq (h q) (h0 q)"
    and ins: "leaf_table_insert std_hash h m p = Some (m', r)"
  shows "table_inv h0 (insert p A) m' \<and> fst ` set m \<subseteq> fst ` set m' \<and>
     (\<forall>k. r = Some k \<longrightarrow> k \<in> fst ` set m' \<and> leaf_key (h0 k) = leaf_key (h0 p))"
proof -
  let ?P = "\<lambda>(k, v). leaf_key (h0 k) = leaf_key (h0 p)"
  from ins have fnd: "leaf_map_find std_hash h m p = Some (find ?P m)"
    by (auto simp: leaf_table_insert_def leaf_map_find_static [OF st] split: option.splits)
  from inv have i1: "\<And>k v. (k, v) \<in> set m \<Longrightarrow> k \<in> A \<and> v \<in> A \<and> leaf_key (h0 k) = leaf_key (h0 v)"
    and i2: "\<And>q. q \<in> A \<Longrightarrow> \<exists>(k, v) \<in> set m. leaf_key (h0 k) = leaf_key (h0 q)"
    and i3: "distinct (map (\<lambda>kv. leaf_key (h0 (fst kv))) m)"
    unfolding table_inv_def by blast+
  show ?thesis
  proof (cases "find ?P m")
    case None
    then have no: "\<And>k v. (k, v) \<in> set m \<Longrightarrow> leaf_key (h0 k) \<noteq> leaf_key (h0 p)"
      by (auto simp: find_None_iff)
    have m': "m' = m @ [(p, p)]" and r: "r = None"
      using ins by (simp_all add: leaf_table_insert_def fnd None)
    have 1: "\<forall>(k, v)\<in>set (m @ [(p, p)]). k \<in> insert p A \<and> v \<in> insert p A \<and>
              leaf_key (h0 k) = leaf_key (h0 v)"
      using i1 by auto
    have 2: "\<forall>q\<in>insert p A. \<exists>(k, v)\<in>set (m @ [(p, p)]). leaf_key (h0 k) = leaf_key (h0 q)"
      using i2 by fastforce
    have "leaf_key (h0 p) \<notin> (\<lambda>kv. leaf_key (h0 (fst kv))) ` set m"
    proof
      assume "leaf_key (h0 p) \<in> (\<lambda>kv. leaf_key (h0 (fst kv))) ` set m"
      then obtain kv where "kv \<in> set m" "leaf_key (h0 p) = leaf_key (h0 (fst kv))"
        by blast
      then show False using no [of "fst kv" "snd kv"] by simp
    qed
    then have 3: "distinct (map (\<lambda>kv. leaf_key (h0 (fst kv))) (m @ [(p, p)]))"
      using i3 by simp
    from 1 2 3 show ?thesis unfolding table_inv_def m' r by auto
  next
    case (Some kv)
    obtain k v where kv: "kv = (k, v)" by (cases kv)
    have mem: "(k, v) \<in> set m" and kp: "leaf_key (h0 k) = leaf_key (h0 p)"
      using Some unfolding kv by (auto simp: find_Some_iff in_set_conv_nth)
    have m': "m' = m" and r: "r = Some k"
      using ins by (simp_all add: leaf_table_insert_def fnd Some kv)
    have 1: "\<forall>(k', v')\<in>set m. k' \<in> insert p A \<and> v' \<in> insert p A \<and>
                leaf_key (h0 k') = leaf_key (h0 v')"
      using i1 by auto
    have 2: "\<forall>q\<in>insert p A. \<exists>(k', v')\<in>set m. leaf_key (h0 k') = leaf_key (h0 q)"
      using i2 mem kp by auto
    have 4: "k \<in> fst ` set m" using mem by force
    from 1 2 i3 4 kp show ?thesis unfolding table_inv_def m' r by auto
  qed
qed

lemma concat_update_snoc:
  "i < length ds \<Longrightarrow> set (concat (ds[i := ds ! i @ [x]])) = insert x (set (concat ds))"
proof (induction ds arbitrary: i)
  case Nil
  then show ?case by simp
next
  case (Cons d ds)
  then show ?case by (cases i) auto
qed

lemma leaves_of_cong: "set L = set L' \<Longrightarrow> leaves_of h0 L = leaves_of h0 L'"
  by (simp add: leaves_of_def)

lemma leaves_of_insert_None:
  "set L' = insert None (set L) \<Longrightarrow> leaves_of h0 L' = leaves_of h0 L"
  by (auto simp: leaves_of_def)

lemma leaves_of_insert_Some:
  "set L' = insert (Some p) (set L) \<Longrightarrow>
   leaves_of h0 L' =
     (if is_eligible (h0 p) \<and> is_leaf (h0 p) then insert p (leaves_of h0 L) else leaves_of h0 L)"
  by (auto simp: leaves_of_def)

lemma run_inv_update_thread:
  assumes inv: "run_inv h0 fs ds ts st" and i: "i < length ts"
    and td: "todo t' = todo (ts ! i)"
    and pd: "pending_inv h0 (leaves_of h0 (concat ds)) (snd st) t'"
  shows "run_inv h0 fs ds (ts[i := t']) st"
proof -
  have 1: "\<forall>j < length fs. ds ! j @ todo (ts[i := t'] ! j) = sections (fs ! j)"
    using inv i td unfolding run_inv_def by (simp add: nth_list_update)
  have 2: "\<forall>t \<in> set (ts[i := t']). pending_inv h0 (leaves_of h0 (concat ds)) (snd st) t"
    using inv pd set_update_subset_insert [of ts i t'] unfolding run_inv_def by auto
  from 1 2 inv show ?thesis unfolding run_inv_def by simp
qed

lemma run_inv_store:
  assumes inv: "run_inv h0 fs ds ts (h, m)" and i: "i < length ts"
    and pd: "pending (ts ! i) = Storing p k"
    and td: "todo t' = todo (ts ! i)" and pd': "pending t' = Idle"
  shows "run_inv h0 fs ds (ts[i := t']) (h, leaf_table_store m k p)"
proof -
  let ?A = "leaves_of h0 (concat ds)"
  let ?m = "leaf_table_store m k p"
  have ti: "table_inv h0 ?A m" and pi: "\<forall>t \<in> set ts. pending_inv h0 ?A m t"
    using inv unfolding run_inv_def by simp_all
  have "pending_inv h0 ?A m (ts ! i)" using pi i by simp
  then have p: "p \<in> ?A" and k: "k \<in> fst ` set m" and e: "leaf_key (h0 k) = leaf_key (h0 p)"
    using pd unfolding pending_inv_def by simp_all
  have fs: "fst ` set ?m = fst ` set m"
    using leaf_table_store_fst [of m k p] by (metis set_map)
  have 1: "\<forall>j < length fs. ds ! j @ todo (ts[i := t'] ! j) = sections (fs ! j)"
    using inv i td unfolding run_inv_def by (simp add: nth_list_update)
  have 2: "table_inv h0 ?A ?m"
    using ti p k e by (rule table_inv_store)
  have 3: "\<forall>t \<in> set (ts[i := t']). pending_inv h0 ?A ?m t"
  proof
    fix t assume "t \<in> set (ts[i := t'])"
    then have "t = t' \<or> t \<in> set ts"
      using set_update_subset_insert [of ts i t'] by auto
    then show "pending_inv h0 ?A ?m t"
    proof
      assume "t = t'" then show ?thesis using pd' by simp
    next
      assume "t \<in> set ts"
      then have "pending_inv h0 ?A m t" using pi by simp
      then show ?thesis by (rule pending_inv_mono) (simp_all add: fs)
    qed
  qed
  from 1 2 3 inv show ?thesis unfolding run_inv_def by simp
qed

lemma run_inv_advance:
  assumes inv: "run_inv h0 fs ds ts (h, m)" and i: "i < length ts"
    and td: "todo (ts ! i) = isec # rest" and td': "todo t' = rest"
    and flags: "\<forall>q. static_eq (h' q) (h0 q) \<and> leader (h' q) = leader (h0 q) \<and>
          icf_leaf (h' q) = (icf_leaf (h0 q) \<or> q \<in> leaves_of h0 (concat ds @ [isec])) \<and>
          icf_eligible (h' q) =
            (icf_eligible (h0 q) \<or>
             (Some q \<in> set (concat ds @ [isec]) \<and> is_eligible (h0 q) \<and> \<not> is_leaf (h0 q)))"
    and table: "table_inv h0 (leaves_of h0 (concat ds @ [isec])) m'"
    and pend: "pending_inv h0 (leaves_of h0 (concat ds @ [isec])) m' t'"
    and mono: "fst ` set m \<subseteq> fst ` set m'"
  shows "run_inv h0 fs (ds[i := ds ! i @ [isec]]) (ts[i := t']) (h', m')"
proof -
  let ?ds = "ds[i := ds ! i @ [isec]]"
  have len: "length ds = length fs" "length ts = length fs"
    using inv unfolding run_inv_def by simp_all
  have s: "set (concat ?ds) = set (concat ds @ [isec])"
    using concat_update_snoc [of i ds isec] i len by simp
  have A: "leaves_of h0 (concat ?ds) = leaves_of h0 (concat ds @ [isec])"
    using s by (rule leaves_of_cong)
  have sub: "leaves_of h0 (concat ds) \<subseteq> leaves_of h0 (concat ds @ [isec])"
    by (auto simp: leaves_of_def)
  have 1: "\<forall>j < length fs. ?ds ! j @ todo (ts[i := t'] ! j) = sections (fs ! j)"
  proof (intro allI impI)
    fix j assume j: "j < length fs"
    show "?ds ! j @ todo (ts[i := t'] ! j) = sections (fs ! j)"
    proof (cases "j = i")
      case True
      have "ds ! i @ todo (ts ! i) = sections (fs ! i)"
        using inv j True unfolding run_inv_def by simp
      then show ?thesis using True i len td td' by simp
    next
      case False
      then show ?thesis using inv j unfolding run_inv_def by simp
    qed
  qed
  have 3: "\<forall>t \<in> set (ts[i := t']). pending_inv h0 (leaves_of h0 (concat ?ds)) m' t"
  proof
    fix t assume "t \<in> set (ts[i := t'])"
    then have "t = t' \<or> t \<in> set ts"
      using set_update_subset_insert [of ts i t'] by auto
    then show "pending_inv h0 (leaves_of h0 (concat ?ds)) m' t"
    proof
      assume "t = t'" then show ?thesis using pend A by simp
    next
      assume "t \<in> set ts"
      then have "pending_inv h0 (leaves_of h0 (concat ds)) m t"
        using inv unfolding run_inv_def by simp
      then show ?thesis unfolding A using sub mono by (rule pending_inv_mono)
    qed
  qed
  show ?thesis
    unfolding run_inv_def A
    using len 1 flags table 3 s unfolding A by simp
qed

lemma leaf_thread_step_inv:
  assumes inv: "run_inv h0 fs ds ts st" and i: "i < length ts"
    and step: "leaf_thread_step std_hash (ts ! i) st = Some (t', st')"
  shows "\<exists>ds'. run_inv h0 fs ds' (ts[i := t']) st'"
proof -
  obtain h m where st: "st = (h, m)" by (cases st)
  let ?t = "ts ! i"
  let ?L = "concat ds"
  let ?A = "leaves_of h0 ?L"
  from inv have stat: "\<forall>q. static_eq (h q) (h0 q)"
    and fields: "\<And>q. leader (h q) = leader (h0 q) \<and>
          icf_leaf (h q) = (icf_leaf (h0 q) \<or> q \<in> ?A) \<and>
          icf_eligible (h q) =
            (icf_eligible (h0 q) \<or> (Some q \<in> set ?L \<and> is_eligible (h0 q) \<and> \<not> is_leaf (h0 q)))"
    and ti: "table_inv h0 ?A m"
    and pi: "\<forall>t \<in> set ts. pending_inv h0 ?A m t"
    unfolding run_inv_def st by simp_all
  have el: "is_eligible (h q) = is_eligible (h0 q)" and lf: "is_leaf (h q) = is_leaf (h0 q)" for q
    using stat static_eq_is_eligible static_eq_is_leaf by blast+
  have pti: "pending_inv h0 ?A m ?t" using pi i by simp
  show ?thesis
  proof (cases "pending ?t")
    case (Testing p k)
    from step have st': "st' = st" and td: "todo t' = todo ?t"
      and pd: "pending t' = Storing p k \<or> pending t' = Idle"
      using Testing unfolding leaf_thread_step_def st
      by (auto split: option.splits if_splits)
    have "pending_inv h0 ?A (snd st) t'"
      using pd pti Testing unfolding pending_inv_def st by force
    then have "run_inv h0 fs ds (ts[i := t']) st"
      using inv i td by (intro run_inv_update_thread)
    then show ?thesis unfolding st' by blast
  next
    case (Storing p k)
    from step have st': "st' = (h, leaf_table_store m k p)" and td: "todo t' = todo ?t"
      and pd: "pending t' = Idle"
      using Storing unfolding leaf_thread_step_def st by auto
    have "run_inv h0 fs ds (ts[i := t']) (h, leaf_table_store m k p)"
      using inv [unfolded st] i Storing td pd by (rule run_inv_store)
    then show ?thesis unfolding st' by blast
  next
    case Idle
    show ?thesis
    proof (cases "todo ?t")
      case Nil
      from step have "st' = st" "t' = ?t"
        using Idle unfolding leaf_thread_step_def st Nil by auto
      then show ?thesis using inv by auto
    next
      case (Cons isec rest)
      let ?L' = "?L @ [isec]"
      show ?thesis
      proof (cases isec)
        case None
        from step have st': "st' = (h, m)" and td': "todo t' = rest" and pd': "pending t' = Idle"
          using Idle unfolding leaf_thread_step_def st Cons None by auto
        have "run_inv h0 fs (ds[i := ds ! i @ [isec]]) (ts[i := t']) (h, m)"
          using inv [unfolded st] i Cons td'
        proof (rule run_inv_advance)
          show "\<forall>q. static_eq (h q) (h0 q) \<and> leader (h q) = leader (h0 q) \<and>
              icf_leaf (h q) = (icf_leaf (h0 q) \<or> q \<in> leaves_of h0 ?L') \<and>
              icf_eligible (h q) =
                (icf_eligible (h0 q) \<or>
                 (Some q \<in> set ?L' \<and> is_eligible (h0 q) \<and> \<not> is_leaf (h0 q)))"
            using stat fields unfolding None leaves_of_snoc_None by simp
          show "table_inv h0 (leaves_of h0 ?L') m"
            using ti unfolding None leaves_of_snoc_None .
          show "pending_inv h0 (leaves_of h0 ?L') m t'" using pd' by simp
        qed simp
        then show ?thesis unfolding st' by blast
      next
        case (Some p)
        show ?thesis
        proof (cases "is_eligible (h0 p)")
          case False
          from step have st': "st' = (h, m)" and td': "todo t' = rest" and pd': "pending t' = Idle"
            using Idle False el unfolding leaf_thread_step_def st Cons Some by auto
          have "run_inv h0 fs (ds[i := ds ! i @ [isec]]) (ts[i := t']) (h, m)"
            using inv [unfolded st] i Cons td'
          proof (rule run_inv_advance)
            show "\<forall>q. static_eq (h q) (h0 q) \<and> leader (h q) = leader (h0 q) \<and>
                icf_leaf (h q) = (icf_leaf (h0 q) \<or> q \<in> leaves_of h0 ?L') \<and>
                icf_eligible (h q) =
                  (icf_eligible (h0 q) \<or>
                   (Some q \<in> set ?L' \<and> is_eligible (h0 q) \<and> \<not> is_leaf (h0 q)))"
              using stat fields False unfolding Some leaves_of_snoc_Some by auto
            show "table_inv h0 (leaves_of h0 ?L') m"
              using ti False unfolding Some leaves_of_snoc_Some by simp
            show "pending_inv h0 (leaves_of h0 ?L') m t'" using pd' by simp
          qed simp
          then show ?thesis unfolding st' by blast
        next
          case True
          show ?thesis
          proof (cases "is_leaf (h0 p)")
            case noleaf: False
            let ?h = "h(p := (h p)\<lparr>icf_eligible := True\<rparr>)"
            from step have st': "st' = (?h, m)" and td': "todo t' = rest"
              and pd': "pending t' = Idle"
              using Idle True noleaf el lf unfolding leaf_thread_step_def st Cons Some by auto
            have "run_inv h0 fs (ds[i := ds ! i @ [isec]]) (ts[i := t']) (?h, m)"
              using inv [unfolded st] i Cons td'
            proof (rule run_inv_advance)
              show "\<forall>q. static_eq (?h q) (h0 q) \<and> leader (?h q) = leader (h0 q) \<and>
                  icf_leaf (?h q) = (icf_leaf (h0 q) \<or> q \<in> leaves_of h0 ?L') \<and>
                  icf_eligible (?h q) =
                    (icf_eligible (h0 q) \<or>
                     (Some q \<in> set ?L' \<and> is_eligible (h0 q) \<and> \<not> is_leaf (h0 q)))"
                using stat fields True noleaf unfolding Some leaves_of_snoc_Some by auto
              show "table_inv h0 (leaves_of h0 ?L') m"
                using ti noleaf unfolding Some leaves_of_snoc_Some by simp
              show "pending_inv h0 (leaves_of h0 ?L') m t'" using pd' by simp
            qed simp
            then show ?thesis unfolding st' by blast
          next
            case leaf: True
            let ?h = "h(p := (h p)\<lparr>icf_leaf := True\<rparr>)"
            have stat': "\<forall>q. static_eq (?h q) (h0 q)"
              using stat by simp
            from step obtain m' r where
              ins: "leaf_table_insert std_hash ?h m p = Some (m', r)"
              and st': "st' = (?h, m')" and td': "todo t' = rest"
              and pd': "pending t' = (case r of None \<Rightarrow> Idle | Some k \<Rightarrow> Testing p k)"
              using Idle True leaf el lf unfolding leaf_thread_step_def st Cons Some
              by (auto simp: Let_def split: option.splits)
            from table_inv_insert [OF ti stat' ins] have
              t1: "table_inv h0 (insert p ?A) m'" and t2: "fst ` set m \<subseteq> fst ` set m'"
              and t3: "\<And>k. r = Some k \<Longrightarrow> k \<in> fst ` set m' \<and> leaf_key (h0 k) = leaf_key (h0 p)"
              by blast+
            have A': "leaves_of h0 ?L' = insert p ?A"
              unfolding Some leaves_of_snoc_Some using True leaf by simp
            have "run_inv h0 fs (ds[i := ds ! i @ [isec]]) (ts[i := t']) (?h, m')"
              using inv [unfolded st] i Cons td'
            proof (rule run_inv_advance)
              show "\<forall>q. static_eq (?h q) (h0 q) \<and> leader (?h q) = leader (h0 q) \<and>
                  icf_leaf (?h q) = (icf_leaf (h0 q) \<or> q \<in> leaves_of h0 ?L') \<and>
                  icf_eligible (?h q) =
                    (icf_eligible (h0 q) \<or>
                     (Some q \<in> set ?L' \<and> is_eligible (h0 q) \<and> \<not> is_leaf (h0 q)))"
                unfolding A' using stat fields True leaf unfolding Some by auto
              show "table_inv h0 (leaves_of h0 ?L') m'"
                unfolding A' by (rule t1)
              show "pending_inv h0 (leaves_of h0 ?L') m' t'"
                unfolding A' pending_inv_def pd' using t3 by (cases r) auto
              show "fst ` set m \<subseteq> fst ` set m'" by (rule t2)
            qed
            then show ?thesis unfolding st' by blast
          qed
        qed
      qed
    qed
  qed
qed

lemma leaf_run_inv:
  assumes "run_inv h0 fs ds ts st"
    and "leaf_run std_hash sched ts st = Some (ts', st')"
  shows "\<exists>ds'. run_inv h0 fs ds' ts' st'"
  using assms
proof (induction sched arbitrary: ds ts st)
  case Nil
  then show ?case by auto
next
  case (Cons i sched)
  from Cons.prems(2) obtain t1 st1 where i: "i < length ts"
    and s: "leaf_thread_step std_hash (ts ! i) st = Some (t1, st1)"
    and r: "leaf_run std_hash sched (ts[i := t1]) st1 = Some (ts', st')"
    by (auto split: if_splits option.splits)
  from leaf_thread_step_inv [OF Cons.prems(1) i s] obtain ds1 where
    "run_inv h0 fs ds1 (ts[i := t1]) st1" by blast
  then show ?case using r by (rule Cons.IH)
qed

lemma run_inv_start:
  "run_inv h0 fs (map (\<lambda>f. []) fs) (leaf_threads fs) (h0, [])"
  unfolding run_inv_def
  by (simp add: leaf_threads_def leaves_of_def table_inv_def pending_inv_def)

lemma run_inv_finished:
  assumes inv: "run_inv h0 fs ds ts st" and fin: "list_all leaf_finished ts"
  shows "set (concat ds) = set (concat (map sections fs))"
proof -
  have len: "length ds = length fs" "length ts = length fs"
    using inv unfolding run_inv_def by simp_all
  have "ds ! i = sections (fs ! i)" if "i < length fs" for i
  proof -
    have "todo (ts ! i) = []"
      using fin that len by (simp add: list_all_length leaf_finished_def)
    moreover have "ds ! i @ todo (ts ! i) = sections (fs ! i)"
      using inv that unfolding run_inv_def by simp
    ultimately show ?thesis by simp
  qed
  then have "ds = map sections fs"
    using len by (simp add: list_eq_iff_nth_eq)
  then show ?thesis by simp
qed

lemma leaf_pass_scheduled_result:
  assumes "leaf_pass_scheduled std_hash sched c = Some c'"
  shows "\<exists>m. table_inv (isecs c) (leaves_of (isecs c) (input_sections c)) m \<and>
     objs c' = objs c \<and> syms c' = syms c \<and>
     (\<forall>q. static_eq (isecs c' q) (isecs c q) \<and>
        icf_leaf (isecs c' q) =
          (icf_leaf (isecs c q) \<or> q \<in> leaves_of (isecs c) (input_sections c)) \<and>
        icf_eligible (isecs c' q) =
          (icf_eligible (isecs c q) \<or>
           (Some q \<in> set (input_sections c) \<and> is_eligible (isecs c q) \<and>
            \<not> is_leaf (isecs c q))) \<and>
        leader (isecs c' q) =
          (if Some q \<in> set (input_sections c) \<and>
              (icf_leaf (isecs c q) \<or> q \<in> leaves_of (isecs c) (input_sections c))
           then map_option snd
                  (find (\<lambda>(k, v). leaf_key (isecs c k) = leaf_key (isecs c q)) m)
           else leader (isecs c q)))"
proof -
  let ?S = "input_sections c"
  let ?h0 = "isecs c"
  from assms obtain ts h1 m h2 where
    l1: "leaf_run std_hash sched (leaf_threads (objs c)) (?h0, []) = Some (ts, h1, m)"
    and fin: "list_all leaf_finished ts"
    and l2: "fold_opt (leaf_assign std_hash m) ?S h1 = Some h2"
    and c': "c' = c\<lparr>isecs := h2\<rparr>"
    unfolding leaf_pass_scheduled_def fold_opt_nested input_sections_def
    by (auto split: option.splits if_splits)
  from leaf_run_inv [OF run_inv_start l1] obtain ds where
    inv: "run_inv ?h0 (objs c) ds ts (h1, m)" by blast
  have s: "set (concat ds) = set ?S"
    using run_inv_finished [OF inv fin] by (simp add: input_sections_def)
  have A: "leaves_of ?h0 (concat ds) = leaves_of ?h0 ?S"
    using s by (rule leaves_of_cong)
  from inv have stat1: "\<forall>q. static_eq (h1 q) (?h0 q)"
    and fields: "\<And>q. leader (h1 q) = leader (?h0 q) \<and>
          icf_leaf (h1 q) = (icf_leaf (?h0 q) \<or> q \<in> leaves_of ?h0 ?S) \<and>
          icf_eligible (h1 q) =
            (icf_eligible (?h0 q) \<or>
             (Some q \<in> set ?S \<and> is_eligible (?h0 q) \<and> \<not> is_leaf (?h0 q)))"
    and ti: "table_inv ?h0 (leaves_of ?h0 ?S) m"
    unfolding run_inv_def A s by simp_all
  have a: "assign_inv ?h0 h1 m ([] @ ?S) h2"
    using assign_inv_start [OF stat1] l2 by (rule leaf_assign_fold)
  show ?thesis
    using ti fields a unfolding assign_inv_def c'
    by (intro exI [of _ m]) auto
qed

lemma leaf_leader_member:
  assumes ti: "table_inv h0 A m" and a: "a \<in> A"
  shows "\<exists>k r. find (\<lambda>(k, v). leaf_key (h0 k) = leaf_key (h0 a)) m = Some (k, r) \<and>
     r \<in> A \<and> leaf_key (h0 r) = leaf_key (h0 a)"
proof -
  let ?P = "\<lambda>(k, v). leaf_key (h0 k) = leaf_key (h0 a)"
  have "\<exists>(k, v) \<in> set m. leaf_key (h0 k) = leaf_key (h0 a)"
    using ti a unfolding table_inv_def by blast
  then have "find ?P m \<noteq> None"
    by (auto simp: find_None_iff)
  then obtain k r where f: "find ?P m = Some (k, r)" by auto
  then have mem: "(k, r) \<in> set m" and ka: "leaf_key (h0 k) = leaf_key (h0 a)"
    by (auto simp: find_Some_iff in_set_conv_nth)
  have "r \<in> A" "leaf_key (h0 k) = leaf_key (h0 r)"
    using ti mem unfolding table_inv_def by blast+
  with f ka show ?thesis by auto
qed

lemma icf_after_leaf_pass_leader:
  assumes run: "icf_after_leaf_pass fuel sha256 c1 = Some cf"
    and ne: "\<not> icf_eligible (isecs c1 a)"
  shows "leader (isecs cf a) = leader (isecs c1 a)"
proof -
  from run obtain c2 secs where gs: "gather_sections c1 = Some (c2, secs)"
    by (auto simp: icf_after_leaf_pass_def split: option.splits)
  from run gs obtain digest where
    cf: "cf = reassign_symbols
           (c2\<lparr>isecs := elect_leaders digest (sort_sections (isecs c2) digest secs) (isecs c2)\<rparr>)"
    by (auto simp: icf_after_leaf_pass_def Let_def split: option.splits prod.splits)
  have g: "(\<forall>p \<in> set secs. icf_eligible (isecs c1 p)) \<and>
           (\<forall>q. leader (isecs c2 q) = leader (isecs c1 q))"
    using gather_sections_result [OF gs] by simp
  then have "a \<notin> set secs" using ne by auto
  then have "a \<notin> set (sort_sections (isecs c2) digest secs)"
    by (simp add: sort_sections_def)
  then have "leader (elect_leaders digest (sort_sections (isecs c2) digest secs) (isecs c2) a) =
             leader (isecs c2 a)"
    by (rule elect_leaders_frame)
  then show ?thesis
    unfolding cf reassign_symbols_flat using g by (simp add: fold_reassign_leader)
qed

lemma leaf_pass_has_schedule:
  assumes fresh: "\<forall>p. Some p \<in> set (input_sections c) \<longrightarrow> \<not> icf_leaf (isecs c p)"
    and sizes: "\<forall>p. Some p \<in> set (input_sections c) \<and> is_eligible (isecs c p) \<and>
        is_leaf (isecs c p) \<longrightarrow>
        (\<forall>fde \<in> set (fdes (isecs c p)). 8 \<le> length (fde_contents fde))"
  shows "\<exists>sched c'. leaf_pass_scheduled std_hash sched c = Some c'"
proof -
  have "leaf_pass std_hash c \<noteq> None"
    using fresh sizes by (rule leaf_pass_total)
  then obtain c' where "leaf_pass std_hash c = Some c'" by auto
  from leaf_pass_is_a_schedule [OF this] show ?thesis by blast
qed

lemma icf_sections_leaf_leader:
  assumes run: "icf_sections fuel sha256 std_hash c = Some cf"
    and lp: "leaf_pass std_hash c = Some c1"
    and ne: "\<not> icf_eligible (isecs c1 a)"
  shows "leader (isecs cf a) = leader (isecs c1 a)"
proof -
  from run lp obtain c2 secs where gs: "gather_sections c1 = Some (c2, secs)"
    by (auto simp: icf_sections_def split: option.splits)
  from run lp gs obtain digest where
    cf: "cf = reassign_symbols
           (c2\<lparr>isecs := elect_leaders digest (sort_sections (isecs c2) digest secs) (isecs c2)\<rparr>)"
    by (auto simp: icf_sections_def Let_def split: option.splits prod.splits)
  have g: "(\<forall>p \<in> set secs. icf_eligible (isecs c1 p)) \<and>
           (\<forall>q. leader (isecs c2 q) = leader (isecs c1 q))"
    using gather_sections_result [OF gs] by simp
  then have "a \<notin> set secs" using ne by auto
  then have "a \<notin> set (sort_sections (isecs c2) digest secs)"
    by (simp add: sort_sections_def)
  then have "leader (elect_leaders digest (sort_sections (isecs c2) digest secs) (isecs c2) a) =
             leader (isecs c2 a)"
    by (rule elect_leaders_frame)
  then show ?thesis
    unfolding cf reassign_symbols_flat using g by (simp add: fold_reassign_leader)
qed

lemma leaf_leader_found:
  assumes mi: "map_inv std_hash h0 A m" and a: "a \<in> A"
  shows "\<exists>k r. find (\<lambda>(k, v). leaf_key (h0 k) = leaf_key (h0 a)) m = Some (k, r) \<and>
     r \<in> A \<and> leaf_key (h0 r) = leaf_key (h0 a) \<and>
     (\<forall>q \<in> A. leaf_key (h0 q) = leaf_key (h0 a) \<longrightarrow>
        sint (get_priority (h0 r)) \<le> sint (get_priority (h0 q)))"
proof -
  let ?P = "\<lambda>(k, v). leaf_key (h0 k) = leaf_key (h0 a)"
  have "\<exists>(k, v) \<in> set m. leaf_key (h0 k) = leaf_key (h0 a)"
    using mi a unfolding map_inv_def by blast
  then have "find ?P m \<noteq> None"
    by (auto simp: find_None_iff)
  then obtain k r where f: "find ?P m = Some (k, r)" by auto
  then have mem: "(k, r) \<in> set m" and ka: "leaf_key (h0 k) = leaf_key (h0 a)"
    by (auto simp: find_Some_iff in_set_conv_nth)
  have r: "r \<in> A" "leaf_key (h0 k) = leaf_key (h0 r)"
    using mi mem unfolding map_inv_def by blast+
  have "\<forall>q \<in> A. leaf_key (h0 q) = leaf_key (h0 a) \<longrightarrow>
        sint (get_priority (h0 r)) \<le> sint (get_priority (h0 q))"
    using mi mem ka unfolding map_inv_def by fastforce
  with f r ka show ?thesis by auto
qed


text \<open>
  The leaf pass in the run in which no thread is interrupted and the files are taken in
  their order.  Take a state in which no input section carries the flags of the pass yet,
  and in which the FDE records of the eligible leaves have their 8 header bytes.  Then the
  leaf pass returns, and for two sections \<open>a\<close> and \<open>b\<close> that pass the eligibility filter
  and are leaves: they get the same leader iff their contents are equal, they have the same
  number of FDEs, and corresponding FDE records have the same length and the same bytes
  after the first 8; the leader of \<open>a\<close> is an eligible leaf equal to \<open>a\<close> in that sense
  whose priority is the least among them; \<open>a\<close> is marked as a leaf and not as a
  participant, so the section enumerator does not list it; and the rest of the pass leaves
  the leaders of \<open>a\<close> and \<open>b\<close> as the leaf pass set them.
\<close>

lemma leaf_sections_fold_uninterrupted:
  assumes fresh: "\<forall>p. Some p \<in> set (input_sections c) \<longrightarrow>
        \<not> icf_leaf (isecs c p) \<and> \<not> icf_eligible (isecs c p)"
    and sizes: "\<forall>p. Some p \<in> set (input_sections c) \<and> is_eligible (isecs c p) \<and>
        is_leaf (isecs c p) \<longrightarrow>
        (\<forall>fde \<in> set (fdes (isecs c p)). 8 \<le> length (fde_contents fde))"
    and a: "Some a \<in> set (input_sections c)" "is_eligible (isecs c a)" "is_leaf (isecs c a)"
    and b: "Some b \<in> set (input_sections c)" "is_eligible (isecs c b)" "is_leaf (isecs c b)"
  shows "\<exists>c'. leaf_pass std_hash c = Some c' \<and>
     (leader (isecs c' a) = leader (isecs c' b) \<longleftrightarrow>
        contents (isecs c a) = contents (isecs c b) \<and>
        length (fdes (isecs c a)) = length (fdes (isecs c b)) \<and>
        (\<forall>i < length (fdes (isecs c a)).
           length (fde_contents (fdes (isecs c a) ! i)) =
             length (fde_contents (fdes (isecs c b) ! i)) \<and>
           drop 8 (fde_contents (fdes (isecs c a) ! i)) =
             drop 8 (fde_contents (fdes (isecs c b) ! i)))) \<and>
     (\<exists>r. leader (isecs c' a) = Some r \<and>
        Some r \<in> set (input_sections c) \<and> is_eligible (isecs c r) \<and> is_leaf (isecs c r) \<and>
        LeafEq (isecs c r) (isecs c a) \<and>
        (\<forall>q. Some q \<in> set (input_sections c) \<and> is_eligible (isecs c q) \<and>
             is_leaf (isecs c q) \<and> LeafEq (isecs c q) (isecs c a) \<longrightarrow>
             sint (get_priority (isecs c r)) \<le> sint (get_priority (isecs c q)))) \<and>
     icf_leaf (isecs c' a) \<and> \<not> icf_eligible (isecs c' a) \<and>
     (\<forall>c'' secs. gather_sections c' = Some (c'', secs) \<longrightarrow> a \<notin> set secs) \<and>
     (\<forall>fuel sha256 cf. icf_sections fuel sha256 std_hash c = Some cf \<longrightarrow>
        leader (isecs cf a) = leader (isecs c' a) \<and> leader (isecs cf b) = leader (isecs c' b))"
proof -
  let ?h0 = "isecs c"
  let ?A = "leaves_of ?h0 (input_sections c)"
  have "leaf_pass std_hash c \<noteq> None"
    using fresh sizes by (intro leaf_pass_total) auto
  then obtain c' where lp: "leaf_pass std_hash c = Some c'" by auto
  from leaf_pass_result [OF lp] obtain m where
    mi: "map_inv std_hash ?h0 ?A m"
    and lf: "\<And>q. icf_leaf (isecs c' q) = (icf_leaf (?h0 q) \<or> q \<in> ?A)"
    and el: "\<And>q. icf_eligible (isecs c' q) =
          (icf_eligible (?h0 q) \<or>
           (Some q \<in> set (input_sections c) \<and> is_eligible (?h0 q) \<and> \<not> is_leaf (?h0 q)))"
    and ld: "\<And>q. leader (isecs c' q) =
          (if Some q \<in> set (input_sections c) \<and> (icf_leaf (?h0 q) \<or> q \<in> ?A)
           then map_option snd (find (\<lambda>(k, v). leaf_key (?h0 k) = leaf_key (?h0 q)) m)
           else leader (?h0 q))"
    by blast
  have aA: "a \<in> ?A" and bA: "b \<in> ?A"
    using a b by (simp_all add: leaves_of_def)
  from leaf_leader_found [OF mi aA] obtain ka ra where
    fa: "find (\<lambda>(k, v). leaf_key (?h0 k) = leaf_key (?h0 a)) m = Some (ka, ra)"
    and ra: "ra \<in> ?A" "leaf_key (?h0 ra) = leaf_key (?h0 a)"
    and mina: "\<forall>q \<in> ?A. leaf_key (?h0 q) = leaf_key (?h0 a) \<longrightarrow>
        sint (get_priority (?h0 ra)) \<le> sint (get_priority (?h0 q))"
    by blast
  from leaf_leader_found [OF mi bA] obtain kb rb where
    fb: "find (\<lambda>(k, v). leaf_key (?h0 k) = leaf_key (?h0 b)) m = Some (kb, rb)"
    and rb: "rb \<in> ?A" "leaf_key (?h0 rb) = leaf_key (?h0 b)"
    by blast
  have la: "leader (isecs c' a) = Some ra"
    using ld [of a] a(1) aA fa by simp
  have lb: "leader (isecs c' b) = Some rb"
    using ld [of b] b(1) bA fb by simp
  have same: "leader (isecs c' a) = leader (isecs c' b) \<longleftrightarrow> LeafEq (?h0 a) (?h0 b)"
  proof
    assume "leader (isecs c' a) = leader (isecs c' b)"
    then have "ra = rb" using la lb by simp
    then show "LeafEq (?h0 a) (?h0 b)"
      using ra(2) rb(2) by (simp add: LeafEq_leaf_key)
  next
    assume "LeafEq (?h0 a) (?h0 b)"
    then have "leaf_key (?h0 a) = leaf_key (?h0 b)" by (simp add: LeafEq_leaf_key)
    then show "leader (isecs c' a) = leader (isecs c' b)"
      using la lb fa fb by simp
  qed
  have c1: "leader (isecs c' a) = leader (isecs c' b) \<longleftrightarrow>
        contents (?h0 a) = contents (?h0 b) \<and>
        length (fdes (?h0 a)) = length (fdes (?h0 b)) \<and>
        (\<forall>i < length (fdes (?h0 a)).
           length (fde_contents (fdes (?h0 a) ! i)) =
             length (fde_contents (fdes (?h0 b) ! i)) \<and>
           drop 8 (fde_contents (fdes (?h0 a) ! i)) =
             drop 8 (fde_contents (fdes (?h0 b) ! i)))"
    unfolding same by (rule LeafEq_spelled_out)
  have c2': "\<exists>r. leader (isecs c' a) = Some r \<and>
        Some r \<in> set (input_sections c) \<and> is_eligible (?h0 r) \<and> is_leaf (?h0 r) \<and>
        LeafEq (?h0 r) (?h0 a) \<and>
        (\<forall>q. Some q \<in> set (input_sections c) \<and> is_eligible (?h0 q) \<and>
             is_leaf (?h0 q) \<and> LeafEq (?h0 q) (?h0 a) \<longrightarrow>
             sint (get_priority (?h0 r)) \<le> sint (get_priority (?h0 q)))"
    using la ra mina by (intro exI [of _ ra]) (auto simp: leaves_of_def LeafEq_leaf_key)
  have c3: "icf_leaf (isecs c' a)" using lf aA by simp
  have c4: "\<not> icf_eligible (isecs c' a)"
    using el [of a] fresh a by simp
  have c4b: "\<not> icf_eligible (isecs c' b)"
    using el [of b] fresh b by simp
  have c5: "\<forall>c'' secs. gather_sections c' = Some (c'', secs) \<longrightarrow> a \<notin> set secs"
    using gather_sections_result c4 by blast
  have c6: "\<forall>fuel sha256 cf. icf_sections fuel sha256 std_hash c = Some cf \<longrightarrow>
        leader (isecs cf a) = leader (isecs c' a) \<and> leader (isecs cf b) = leader (isecs c' b)"
    using icf_sections_leaf_leader [OF _ lp c4] icf_sections_leaf_leader [OF _ lp c4b]
    by blast
  show ?thesis
    by (rule exI [of _ c'], intro conjI) (rule lp c1 c2' c3 c4 c5 c6)+
qed


lemma leaf_context_sections: "input_sections leaf_context = [Some 1, Some 2, Some 0]"
  by (simp add: input_sections_def leaf_context_def)

lemma leaf_context_fresh:
  "\<not> icf_leaf (isecs leaf_context p) \<and> \<not> icf_eligible (isecs leaf_context p)"
  by (simp add: leaf_context_def leaf_section_def example_section_def)

lemma leaf_context_sizes:
  "\<forall>fde \<in> set (fdes (isecs leaf_context p)). 8 \<le> length (fde_contents fde)"
  by (simp add: leaf_context_def leaf_section_def example_section_def)

lemma leaf_context_eligible: "is_eligible (isecs leaf_context p)"
  by (simp add: leaf_context_def leaf_section_def example_section_def is_eligible_def
      SHF_ALLOC_def SHF_EXECINSTR_def SHF_WRITE_def SHT_NOBITS_def SHT_INIT_ARRAY_def
      SHT_FINI_ARRAY_def is_c_alpha_def)

lemma leaf_context_leaves:
  "is_leaf (isecs leaf_context 0) \<and> is_leaf (isecs leaf_context 1)"
  by (simp add: leaf_context_def leaf_section_def is_leaf_def)

lemma leaf_sections_fold_uninterrupted_example:
  "\<exists>c'. leaf_pass (\<lambda>bytes. 0) leaf_context = Some c' \<and>
     leader (isecs c' 1) = leader (isecs c' 0) \<and>
     icf_leaf (isecs c' 1) \<and> \<not> icf_eligible (isecs c' 1)"
proof -
  have fresh: "\<forall>p. Some p \<in> set (input_sections leaf_context) \<longrightarrow>
        \<not> icf_leaf (isecs leaf_context p) \<and> \<not> icf_eligible (isecs leaf_context p)"
    using leaf_context_fresh by blast
  have sizes: "\<forall>p. Some p \<in> set (input_sections leaf_context) \<and>
        is_eligible (isecs leaf_context p) \<and> is_leaf (isecs leaf_context p) \<longrightarrow>
        (\<forall>fde \<in> set (fdes (isecs leaf_context p)). 8 \<le> length (fde_contents fde))"
    using leaf_context_sizes by blast
  have a: "Some 1 \<in> set (input_sections leaf_context)"
    and b: "Some 0 \<in> set (input_sections leaf_context)"
    by (simp_all add: leaf_context_sections)
  have same: "contents (isecs leaf_context 1) = contents (isecs leaf_context 0) \<and>
        length (fdes (isecs leaf_context 1)) = length (fdes (isecs leaf_context 0)) \<and>
        (\<forall>i < length (fdes (isecs leaf_context 1)).
           length (fde_contents (fdes (isecs leaf_context 1) ! i)) =
             length (fde_contents (fdes (isecs leaf_context 0) ! i)) \<and>
           drop 8 (fde_contents (fdes (isecs leaf_context 1) ! i)) =
             drop 8 (fde_contents (fdes (isecs leaf_context 0) ! i)))"
    by (simp add: leaf_context_def leaf_section_def)
  from leaf_sections_fold_uninterrupted
      [OF fresh sizes a leaf_context_eligible conjunct2 [OF leaf_context_leaves]
          b leaf_context_eligible conjunct1 [OF leaf_context_leaves], of "\<lambda>bytes. 0"]
  obtain c' where lp: "leaf_pass (\<lambda>bytes. 0) leaf_context = Some c'"
    and iff: "leader (isecs c' 1) = leader (isecs c' 0) \<longleftrightarrow>
        contents (isecs leaf_context 1) = contents (isecs leaf_context 0) \<and>
        length (fdes (isecs leaf_context 1)) = length (fdes (isecs leaf_context 0)) \<and>
        (\<forall>i < length (fdes (isecs leaf_context 1)).
           length (fde_contents (fdes (isecs leaf_context 1) ! i)) =
             length (fde_contents (fdes (isecs leaf_context 0) ! i)) \<and>
           drop 8 (fde_contents (fdes (isecs leaf_context 1) ! i)) =
             drop 8 (fde_contents (fdes (isecs leaf_context 0) ! i)))"
    and fl: "icf_leaf (isecs c' 1)" "\<not> icf_eligible (isecs c' 1)"
    by blast
  from iff same have "leader (isecs c' 1) = leader (isecs c' 0)" by (rule iffD2)
  with lp fl show ?thesis by blast
qed

text \<open>
  The leaf pass under any schedule that lets every thread finish.  Take a state in which
  no input section carries the flags of the pass yet.  For two sections \<open>a\<close> and \<open>b\<close>
  that pass the eligibility filter and are leaves: they get the same leader iff their
  contents are equal, they have the same number of FDEs, and corresponding FDE records
  have the same length and the same bytes after the first 8; the leader of \<open>a\<close> is an
  eligible leaf equal to \<open>a\<close> in that sense; \<open>a\<close> is marked as a leaf and not as a
  participant, so the section enumerator does not list it; and the rest of the pass leaves
  the leaders of \<open>a\<close> and \<open>b\<close> as the leaf pass set them.  Which of the equal leaves
  is the leader depends on the schedule.
\<close>

lemma leaf_sections_fold_any_schedule:
  assumes fresh: "\<forall>p. Some p \<in> set (input_sections c) \<longrightarrow>
        \<not> icf_leaf (isecs c p) \<and> \<not> icf_eligible (isecs c p)"
    and a: "Some a \<in> set (input_sections c)" "is_eligible (isecs c a)" "is_leaf (isecs c a)"
    and b: "Some b \<in> set (input_sections c)" "is_eligible (isecs c b)" "is_leaf (isecs c b)"
    and lp: "leaf_pass_scheduled std_hash sched c = Some c'"
  shows "(leader (isecs c' a) = leader (isecs c' b) \<longleftrightarrow>
        contents (isecs c a) = contents (isecs c b) \<and>
        length (fdes (isecs c a)) = length (fdes (isecs c b)) \<and>
        (\<forall>i < length (fdes (isecs c a)).
           length (fde_contents (fdes (isecs c a) ! i)) =
             length (fde_contents (fdes (isecs c b) ! i)) \<and>
           drop 8 (fde_contents (fdes (isecs c a) ! i)) =
             drop 8 (fde_contents (fdes (isecs c b) ! i)))) \<and>
     (\<exists>r. leader (isecs c' a) = Some r \<and>
        Some r \<in> set (input_sections c) \<and> is_eligible (isecs c r) \<and> is_leaf (isecs c r) \<and>
        LeafEq (isecs c r) (isecs c a)) \<and>
     icf_leaf (isecs c' a) \<and> \<not> icf_eligible (isecs c' a) \<and>
     (\<forall>c'' secs. gather_sections c' = Some (c'', secs) \<longrightarrow> a \<notin> set secs) \<and>
     (\<forall>fuel sha256 cf. icf_sections_scheduled fuel sha256 std_hash sched c = Some cf \<longrightarrow>
        leader (isecs cf a) = leader (isecs c' a) \<and> leader (isecs cf b) = leader (isecs c' b))"
proof -
  let ?h0 = "isecs c"
  let ?A = "leaves_of ?h0 (input_sections c)"
  from leaf_pass_scheduled_result [OF lp] obtain m where
    ti: "table_inv ?h0 ?A m"
    and lf: "\<And>q. icf_leaf (isecs c' q) = (icf_leaf (?h0 q) \<or> q \<in> ?A)"
    and el: "\<And>q. icf_eligible (isecs c' q) =
          (icf_eligible (?h0 q) \<or>
           (Some q \<in> set (input_sections c) \<and> is_eligible (?h0 q) \<and> \<not> is_leaf (?h0 q)))"
    and ld: "\<And>q. leader (isecs c' q) =
          (if Some q \<in> set (input_sections c) \<and> (icf_leaf (?h0 q) \<or> q \<in> ?A)
           then map_option snd (find (\<lambda>(k, v). leaf_key (?h0 k) = leaf_key (?h0 q)) m)
           else leader (?h0 q))"
    by blast
  have aA: "a \<in> ?A" and bA: "b \<in> ?A"
    using a b by (simp_all add: leaves_of_def)
  from leaf_leader_member [OF ti aA] obtain ka ra where
    fa: "find (\<lambda>(k, v). leaf_key (?h0 k) = leaf_key (?h0 a)) m = Some (ka, ra)"
    and ra: "ra \<in> ?A" "leaf_key (?h0 ra) = leaf_key (?h0 a)"
    by blast
  from leaf_leader_member [OF ti bA] obtain kb rb where
    fb: "find (\<lambda>(k, v). leaf_key (?h0 k) = leaf_key (?h0 b)) m = Some (kb, rb)"
    and rb: "rb \<in> ?A" "leaf_key (?h0 rb) = leaf_key (?h0 b)"
    by blast
  have la: "leader (isecs c' a) = Some ra"
    using ld [of a] a(1) aA fa by simp
  have lb: "leader (isecs c' b) = Some rb"
    using ld [of b] b(1) bA fb by simp
  have same: "leader (isecs c' a) = leader (isecs c' b) \<longleftrightarrow> LeafEq (?h0 a) (?h0 b)"
  proof
    assume "leader (isecs c' a) = leader (isecs c' b)"
    then have "ra = rb" using la lb by simp
    then show "LeafEq (?h0 a) (?h0 b)"
      using ra(2) rb(2) by (simp add: LeafEq_leaf_key)
  next
    assume "LeafEq (?h0 a) (?h0 b)"
    then have "leaf_key (?h0 a) = leaf_key (?h0 b)" by (simp add: LeafEq_leaf_key)
    then show "leader (isecs c' a) = leader (isecs c' b)"
      using la lb fa fb by simp
  qed
  have c1: "leader (isecs c' a) = leader (isecs c' b) \<longleftrightarrow>
        contents (?h0 a) = contents (?h0 b) \<and>
        length (fdes (?h0 a)) = length (fdes (?h0 b)) \<and>
        (\<forall>i < length (fdes (?h0 a)).
           length (fde_contents (fdes (?h0 a) ! i)) =
             length (fde_contents (fdes (?h0 b) ! i)) \<and>
           drop 8 (fde_contents (fdes (?h0 a) ! i)) =
             drop 8 (fde_contents (fdes (?h0 b) ! i)))"
    unfolding same by (rule LeafEq_spelled_out)
  have c2': "\<exists>r. leader (isecs c' a) = Some r \<and>
        Some r \<in> set (input_sections c) \<and> is_eligible (?h0 r) \<and> is_leaf (?h0 r) \<and>
        LeafEq (?h0 r) (?h0 a)"
    using la ra by (intro exI [of _ ra]) (auto simp: leaves_of_def LeafEq_leaf_key)
  have c3: "icf_leaf (isecs c' a)" using lf aA by simp
  have c4: "\<not> icf_eligible (isecs c' a)"
    using el [of a] fresh a by simp
  have c4b: "\<not> icf_eligible (isecs c' b)"
    using el [of b] fresh b by simp
  have c5: "\<forall>c'' secs. gather_sections c' = Some (c'', secs) \<longrightarrow> a \<notin> set secs"
    using gather_sections_result c4 by blast
  have c6: "\<forall>fuel sha256 cf. icf_sections_scheduled fuel sha256 std_hash sched c = Some cf \<longrightarrow>
        leader (isecs cf a) = leader (isecs c' a) \<and> leader (isecs cf b) = leader (isecs c' b)"
    using icf_after_leaf_pass_leader [OF _ c4] icf_after_leaf_pass_leader [OF _ c4b] lp
    by (simp add: icf_sections_scheduled_def)
  show ?thesis
    by (intro conjI) (rule c1 c2' c3 c4 c5 c6)+
qed

lemma racing_context_sections:
  "input_sections racing_context = [Some 0, Some 1, Some 2, Some 3]"
  by (simp add: input_sections_def racing_context_def)

lemma racing_context_fresh:
  "\<not> icf_leaf (isecs racing_context p) \<and> \<not> icf_eligible (isecs racing_context p)"
  by (simp add: racing_context_def leaf_section_def example_section_def)

lemma racing_context_eligible: "is_eligible (isecs racing_context p)"
  by (simp add: racing_context_def leaf_section_def example_section_def is_eligible_def
      SHF_ALLOC_def SHF_EXECINSTR_def SHF_WRITE_def SHT_NOBITS_def SHT_INIT_ARRAY_def
      SHT_FINI_ARRAY_def is_c_alpha_def)

lemma racing_context_leaves:
  "is_leaf (isecs racing_context 0) \<and> is_leaf (isecs racing_context 3)"
  by (simp add: racing_context_def leaf_section_def is_leaf_def)

lemma racing_schedule_finishes:
  "leaf_pass_scheduled (\<lambda>bytes. 0) racing_schedule racing_context \<noteq> None"
  by code_simp

lemma leaf_sections_fold_any_schedule_example:
  "\<exists>c'. leaf_pass_scheduled (\<lambda>bytes. 0) racing_schedule racing_context = Some c' \<and>
     leader (isecs c' 0) = leader (isecs c' 3) \<and>
     icf_leaf (isecs c' 0) \<and> \<not> icf_eligible (isecs c' 0)"
proof -
  from racing_schedule_finishes obtain c' where
    lp: "leaf_pass_scheduled (\<lambda>bytes. 0) racing_schedule racing_context = Some c'" by auto
  have fresh: "\<forall>p. Some p \<in> set (input_sections racing_context) \<longrightarrow>
        \<not> icf_leaf (isecs racing_context p) \<and> \<not> icf_eligible (isecs racing_context p)"
    using racing_context_fresh by blast
  have a: "Some 0 \<in> set (input_sections racing_context)"
    and b: "Some 3 \<in> set (input_sections racing_context)"
    by (simp_all add: racing_context_sections)
  have same: "contents (isecs racing_context 0) = contents (isecs racing_context 3) \<and>
        length (fdes (isecs racing_context 0)) = length (fdes (isecs racing_context 3)) \<and>
        (\<forall>i < length (fdes (isecs racing_context 0)).
           length (fde_contents (fdes (isecs racing_context 0) ! i)) =
             length (fde_contents (fdes (isecs racing_context 3) ! i)) \<and>
           drop 8 (fde_contents (fdes (isecs racing_context 0) ! i)) =
             drop 8 (fde_contents (fdes (isecs racing_context 3) ! i)))"
    by (simp add: racing_context_def leaf_section_def)
  from leaf_sections_fold_any_schedule
      [OF fresh a racing_context_eligible conjunct1 [OF racing_context_leaves]
          b racing_context_eligible conjunct2 [OF racing_context_leaves] lp]
  have iff: "leader (isecs c' 0) = leader (isecs c' 3) \<longleftrightarrow>
        contents (isecs racing_context 0) = contents (isecs racing_context 3) \<and>
        length (fdes (isecs racing_context 0)) = length (fdes (isecs racing_context 3)) \<and>
        (\<forall>i < length (fdes (isecs racing_context 0)).
           length (fde_contents (fdes (isecs racing_context 0) ! i)) =
             length (fde_contents (fdes (isecs racing_context 3) ! i)) \<and>
           drop 8 (fde_contents (fdes (isecs racing_context 0) ! i)) =
             drop 8 (fde_contents (fdes (isecs racing_context 3) ! i)))"
    and fl: "icf_leaf (isecs c' 0)" "\<not> icf_eligible (isecs c' 0)"
    by blast+
  from iff same have "leader (isecs c' 0) = leader (isecs c' 3)" by (rule iffD2)
  with lp fl show ?thesis by blast
qed

text \<open>
  Claim C7 says that two sections that pass the eligibility filter and are leaves end with
  the same leader iff their contents are equal, they have the same number of FDEs and
  corresponding FDEs have the same length and the same bytes after the first 8; that the
  leader of each class of equal leaves is its member of the lowest priority; and that
  leaves are not added to the participants of the propagation.  The code tests the
  priority against \<^verbatim>\<open>it->second\<close> and stores to \<^verbatim>\<open>it->second\<close> in two accesses of a
  loop that runs under \<^verbatim>\<open>tbb::parallel_for\<close>, with nothing that makes the two one
  operation, while the design asks for a compare-and-set.  In the example three files hold
  the equal leaves 0, 2 and 3, of the priorities 0, 2 and 3.  Under the schedule in which
  the threads of 0 and 2 both test against the entry of 3 before either stores, and the
  thread of 2 stores last, the whole pass ends with the leader 2 for the three leaves, and
  with the sections 0 and 3 marked dead: the member of the lowest priority, 0, is not the
  leader.  In the run in which no thread is interrupted the leader is 0.  The other parts
  of the claim hold under every schedule, as shown above.
\<close>

theorem racing_leaves_keep_later_leader:
  "(case icf_sections_scheduled 20 (\<lambda>bytes. 0) (\<lambda>bytes. 0) racing_schedule racing_context of
      None \<Rightarrow> None
    | Some c \<Rightarrow> Some (map (\<lambda>p. (leader (isecs c p), is_dead (isecs c p))) [0, 2, 3])) =
     Some [(Some 2, True), (Some 2, False), (Some 2, True)] \<and>
   (case icf_sections 20 (\<lambda>bytes. 0) (\<lambda>bytes. 0) racing_context of
      None \<Rightarrow> None
    | Some c \<Rightarrow> Some (map (\<lambda>p. (leader (isecs c p), is_dead (isecs c p))) [0, 2, 3])) =
     Some [(Some 0, False), (Some 0, True), (Some 0, True)] \<and>
   is_eligible (isecs racing_context 0) \<and> is_leaf (isecs racing_context 0) \<and>
   is_eligible (isecs racing_context 2) \<and> is_leaf (isecs racing_context 2) \<and>
   is_eligible (isecs racing_context 3) \<and> is_leaf (isecs racing_context 3) \<and>
   LeafEq (isecs racing_context 0) (isecs racing_context 2) \<and>
   LeafEq (isecs racing_context 0) (isecs racing_context 3) \<and>
   sint (get_priority (isecs racing_context 0)) < sint (get_priority (isecs racing_context 2))"
  by code_simp

lemma flag_bit_0: "(w AND 1 \<noteq> 0) = bit w 0" for w :: u64
  by (simp add: and_one_eq mod_2_eq_odd bit_0)

lemma flag_bit_1: "(w AND 2 \<noteq> 0) = bit w (Suc 0)" for w :: u64
  using and_exp_eq_0_iff_not_bit [of w 1] by simp

lemma flag_bit_2: "(w AND 4 \<noteq> 0) = bit w 2" for w :: u64
  using and_exp_eq_0_iff_not_bit [of w 2] by simp

text \<open>
  Claim C8.  An input section that carries no flag of the pass yet is considered by the
  leaf pass (marked as a leaf or as a participant) iff it is allocatable, executable, not
  writable, not of type \<^verbatim>\<open>SHT_NOBITS\<close>, neither of type \<^verbatim>\<open>SHT_INIT_ARRAY\<close> nor named
  \<^verbatim>\<open>.init\<close>, neither of type \<^verbatim>\<open>SHT_FINI_ARRAY\<close> nor named \<^verbatim>\<open>.fini\<close>, and its name
  is not a C identifier; that is, iff \<^verbatim>\<open>is_eligible\<close> holds of it.  It is marked as a leaf
  iff it is eligible and a leaf.
\<close>

theorem considered_iff_eligible:
  assumes "leaf_pass std_hash c = Some c'"
    and "Some p \<in> set (input_sections c)"
    and "\<not> icf_leaf (isecs c p)" and "\<not> icf_eligible (isecs c p)"
  shows "((icf_leaf (isecs c' p) \<or> icf_eligible (isecs c' p)) \<longleftrightarrow>
        bit (sh_flags (shdr (isecs c p))) 1 \<and> bit (sh_flags (shdr (isecs c p))) 2 \<and>
        \<not> bit (sh_flags (shdr (isecs c p))) 0 \<and>
        sh_type (shdr (isecs c p)) \<noteq> SHT_NOBITS \<and>
        sh_type (shdr (isecs c p)) \<noteq> SHT_INIT_ARRAY \<and> name (isecs c p) \<noteq> ''.init'' \<and>
        sh_type (shdr (isecs c p)) \<noteq> SHT_FINI_ARRAY \<and> name (isecs c p) \<noteq> ''.fini'' \<and>
        \<not> is_c_identifier (name (isecs c p))) \<and>
     (is_eligible (isecs c p) \<longleftrightarrow> icf_leaf (isecs c' p) \<or> icf_eligible (isecs c' p)) \<and>
     (icf_leaf (isecs c' p) \<longleftrightarrow> is_eligible (isecs c p) \<and> is_leaf (isecs c p))"
proof -
  from leaf_pass_result [OF assms(1)] have
    lf: "icf_leaf (isecs c' p) =
          (icf_leaf (isecs c p) \<or> p \<in> leaves_of (isecs c) (input_sections c))"
    and el: "icf_eligible (isecs c' p) =
          (icf_eligible (isecs c p) \<or>
           (Some p \<in> set (input_sections c) \<and> is_eligible (isecs c p) \<and>
            \<not> is_leaf (isecs c p)))"
    by blast+
  have 1: "(icf_leaf (isecs c' p) \<or> icf_eligible (isecs c' p)) \<longleftrightarrow> is_eligible (isecs c p)"
    unfolding lf el using assms(2-4) by (auto simp: leaves_of_def)
  have 2: "is_eligible (isecs c p) \<longleftrightarrow>
        bit (sh_flags (shdr (isecs c p))) 1 \<and> bit (sh_flags (shdr (isecs c p))) 2 \<and>
        \<not> bit (sh_flags (shdr (isecs c p))) 0 \<and>
        sh_type (shdr (isecs c p)) \<noteq> SHT_NOBITS \<and>
        sh_type (shdr (isecs c p)) \<noteq> SHT_INIT_ARRAY \<and> name (isecs c p) \<noteq> ''.init'' \<and>
        sh_type (shdr (isecs c p)) \<noteq> SHT_FINI_ARRAY \<and> name (isecs c p) \<noteq> ''.fini'' \<and>
        \<not> is_c_identifier (name (isecs c p))"
    unfolding is_eligible_def Let_def SHF_ALLOC_def SHF_EXECINSTR_def SHF_WRITE_def
      flag_bit_0 flag_bit_1 flag_bit_2
    by auto
  have 3: "icf_leaf (isecs c' p) \<longleftrightarrow> is_eligible (isecs c p) \<and> is_leaf (isecs c p)"
    unfolding lf using assms(2,3) by (auto simp: leaves_of_def)
  from 1 2 3 show ?thesis by blast
qed

theorem considered_iff_eligible_witness:
  "\<exists>c'. leaf_pass (\<lambda>bytes. 0) leaf_context = Some c' \<and>
     icf_leaf (isecs c' 1) \<and> icf_eligible (isecs c' 2) \<and>
     is_eligible (isecs leaf_context 1) \<and> is_eligible (isecs leaf_context 2) \<and>
     bit (sh_flags (shdr (isecs leaf_context 2))) 1"
proof -
  have "leaf_pass (\<lambda>bytes. 0) leaf_context \<noteq> None"
    using leaf_context_fresh leaf_context_sizes by (intro leaf_pass_total) blast+
  then obtain c' where lp: "leaf_pass (\<lambda>bytes. 0) leaf_context = Some c'" by auto
  have m1: "Some 1 \<in> set (input_sections leaf_context)"
    and m2: "Some 2 \<in> set (input_sections leaf_context)"
    by (simp_all add: leaf_context_sections)
  have f1: "\<not> icf_leaf (isecs leaf_context 1)" "\<not> icf_eligible (isecs leaf_context 1)"
    and f2: "\<not> icf_leaf (isecs leaf_context 2)" "\<not> icf_eligible (isecs leaf_context 2)"
    using leaf_context_fresh by blast+
  have nl: "\<not> is_leaf (isecs leaf_context 2)"
    by (simp add: leaf_context_def example_section_def is_leaf_def)
  have "icf_leaf (isecs c' 1)"
    using considered_iff_eligible [OF lp m1 f1] leaf_context_eligible leaf_context_leaves
    by blast
  moreover have "icf_eligible (isecs c' 2)"
    using considered_iff_eligible [OF lp m2 f2] leaf_context_eligible nl
    by blast
  moreover have "bit (sh_flags (shdr (isecs leaf_context 2))) 1"
    using considered_iff_eligible [OF lp m2 f2] leaf_context_eligible
    by blast
  ultimately show ?thesis
    using lp leaf_context_eligible by blast
qed

section \<open>The initial digest\<close>

lemma hash_i64_append: "hash_i64 v ctx = ctx @ i64_bytes v"
  by (simp add: hash_i64_def SHA256_Update_def)

lemma hash_string_append: "hash_string str ctx = ctx @ string_bytes str"
  by (simp add: hash_string_def string_bytes_def hash_i64_append SHA256_Update_def)

lemma hash_symbol_append: "hash_symbol c symb ctx = ctx @ spec_symbol_fingerprint c symb"
  by (simp add: hash_symbol_def spec_symbol_fingerprint_def hash_i64_append hash_string_append
      split: option.splits)

lemma fragments_before_Suc:
  "i < length (has_fragments isec) \<Longrightarrow>
   fragments_before isec (Suc i) =
     (if has_fragments isec ! i then Suc (fragments_before isec i) else fragments_before isec i)"
  by (simp add: fragments_before_def take_Suc_conv_app_nth)

lemma hash_rels_result:
  assumes "hash_rels c isec i ref_idx ctx = Some ctx'"
    and "ref_idx = fragments_before isec i"
  shows "ctx' = ctx @ concat (map (spec_relocation_block c isec) [i..<length (rels isec)])"
  using assms
proof (induction c isec i ref_idx ctx rule: hash_rels.induct)
  case (1 c isec i ref_idx ctx)
  show ?case
  proof (cases "i < length (rels isec)")
    case False
    then have "ctx' = ctx"
      using "1.prems"(1) by (subst (asm) hash_rels.simps) simp
    then show ?thesis using False by simp
  next
    case True
    let ?rel = "rels isec ! i"
    let ?ctx1 = "hash_i64 (r_addend ?rel) (hash_i64 (r_type ?rel) (hash_i64 (r_offset ?rel) ctx))"
    have unf: "hash_rels c isec i ref_idx ctx =
      (if i < length (has_fragments isec)
       then (if has_fragments isec ! i
             then (if ref_idx < length (rel_fragments isec)
                   then hash_rels c isec (i + 1) (ref_idx + 1)
                          (hash_string (data (frag (rel_fragments isec ! ref_idx)))
                             (hash_i64 (addend (rel_fragments isec ! ref_idx))
                                (hash_i64 1 ?ctx1)))
                   else None)
             else (if isec_file isec < length (objs c) \<and>
                      r_sym ?rel < length (symbols (objs c ! isec_file isec))
                   then hash_rels c isec (i + 1) ref_idx
                          (hash_symbol c
                             (syms c (symbols (objs c ! isec_file isec) ! r_sym ?rel)) ?ctx1)
                   else None))
       else None)"
      using True by (subst hash_rels.simps) (simp add: Let_def)
    have hf: "i < length (has_fragments isec)"
      using "1.prems"(1) unfolding unf by (simp split: if_splits)
    have upt: "[i..<length (rels isec)] = i # [i + 1..<length (rels isec)]"
      using True by (simp add: upt_conv_Cons)
    show ?thesis
    proof (cases "has_fragments isec ! i")
      case frag: True
      let ?ctx2 = "hash_string (data (frag (rel_fragments isec ! ref_idx)))
                     (hash_i64 (addend (rel_fragments isec ! ref_idx)) (hash_i64 1 ?ctx1))"
      have rf: "ref_idx < length (rel_fragments isec)"
        and r: "hash_rels c isec (i + 1) (ref_idx + 1) ?ctx2 = Some ctx'"
        using "1.prems"(1) unfolding unf using hf frag by (simp_all split: if_splits)
      have "ctx' = ?ctx2 @ concat (map (spec_relocation_block c isec) [i + 1..<length (rels isec)])"
        using True hf frag rf r "1.prems"(2)
        by (intro "1.IH"(1)) (simp_all add: fragments_before_Suc)
      moreover have "?ctx2 = ctx @ spec_relocation_block c isec i"
        using frag "1.prems"(2)
        by (simp add: spec_relocation_block_def hash_i64_append hash_string_append)
      ultimately show ?thesis
        unfolding upt by simp
    next
      case nofrag: False
      let ?s = "syms c (symbols (objs c ! isec_file isec) ! r_sym ?rel)"
      let ?ctx2 = "hash_symbol c ?s ?ctx1"
      have ok: "isec_file isec < length (objs c) \<and>
                r_sym ?rel < length (symbols (objs c ! isec_file isec))"
        and r: "hash_rels c isec (i + 1) ref_idx ?ctx2 = Some ctx'"
        using "1.prems"(1) unfolding unf using hf nofrag by (simp_all split: if_splits)
      have "ctx' = ?ctx2 @ concat (map (spec_relocation_block c isec) [i + 1..<length (rels isec)])"
        using True hf nofrag ok r "1.prems"(2)
        by (intro "1.IH"(2)) (simp_all add: fragments_before_Suc)
      moreover have "?ctx2 = ctx @ spec_relocation_block c isec i"
        using nofrag
        by (simp add: spec_relocation_block_def hash_i64_append hash_symbol_append)
      ultimately show ?thesis
        unfolding upt by simp
    qed
  qed
qed

lemma initial_digest_of_result:
  assumes "compute_digest sha256 c isec = Some d"
  shows "\<exists>prefix. digest_prefix c isec = Some prefix \<and>
     d = digest_final sha256
           (prefix @ concat (map (spec_relocation_block c isec) [0..<length (rels isec)]))"
proof -
  from assms obtain prefix ctx' where
    p: "digest_prefix c isec = Some prefix"
    and r: "hash_rels c isec 0 0 prefix = Some ctx'"
    and d: "d = digest_final sha256 ctx'"
    unfolding compute_digest_def compute_digest_input_def digest_prefix_def Let_def
    by (auto split: option.splits)
  have "ctx' = prefix @ concat (map (spec_relocation_block c isec) [0..<length (rels isec)])"
    using r by (rule hash_rels_result) (simp add: fragments_before_def)
  with p d show ?thesis by simp
qed


lemma fragments_before_mono:
  "i \<le> n \<Longrightarrow> fragments_before isec i \<le> fragments_before isec n"
proof -
  assume "i \<le> n"
  then have "take n (has_fragments isec) =
             take i (has_fragments isec) @ take (n - i) (drop i (has_fragments isec))"
    by (metis le_add_diff_inverse take_add)
  then show ?thesis by (simp add: fragments_before_def)
qed

lemma hash_fdes_total:
  "\<forall>fde \<in> set fs. 8 \<le> length (fde_contents fde) \<and> fde_rels fde \<noteq> [] \<Longrightarrow>
   hash_fdes c fs ctx \<noteq> None"
  by (induction fs arbitrary: ctx) simp_all

lemma hash_rels_total:
  assumes "digest_inputs_in_range c isec"
    and "ref_idx = fragments_before isec i"
  shows "hash_rels c isec i ref_idx ctx \<noteq> None"
  using assms
proof (induction c isec i ref_idx ctx rule: hash_rels.induct)
  case (1 c isec i ref_idx ctx)
  show ?case
  proof (cases "i < length (rels isec)")
    case False
    then show ?thesis by (subst hash_rels.simps) simp
  next
    case True
    have hf: "i < length (has_fragments isec)"
      using True "1.prems"(1) by (simp add: digest_inputs_in_range_def)
    let ?rel = "rels isec ! i"
    let ?ctx1 = "hash_i64 (r_addend ?rel) (hash_i64 (r_type ?rel) (hash_i64 (r_offset ?rel) ctx))"
    show ?thesis
    proof (cases "has_fragments isec ! i")
      case frag: True
      have "fragments_before isec (Suc i) \<le> fragments_before isec (length (rels isec))"
        using True by (intro fragments_before_mono) simp
      then have rf: "ref_idx < length (rel_fragments isec)"
        using "1.prems" frag hf
        by (simp add: digest_inputs_in_range_def fragments_before_Suc)
      let ?ctx2 = "hash_string (data (frag (rel_fragments isec ! ref_idx)))
                     (hash_i64 (addend (rel_fragments isec ! ref_idx)) (hash_i64 1 ?ctx1))"
      have "hash_rels c isec (i + 1) (ref_idx + 1) ?ctx2 \<noteq> None"
        using True hf frag rf "1.prems"
        by (intro "1.IH"(1)) (simp_all add: fragments_before_Suc)
      moreover have "hash_rels c isec i ref_idx ctx =
                     hash_rels c isec (i + 1) (ref_idx + 1) ?ctx2"
        using True hf frag rf by (subst hash_rels.simps) (simp add: Let_def)
      ultimately show ?thesis by simp
    next
      case nofrag: False
      have ok: "isec_file isec < length (objs c) \<and>
                r_sym ?rel < length (symbols (objs c ! isec_file isec))"
        using True nofrag "1.prems"(1) by (simp add: digest_inputs_in_range_def)
      let ?ctx2 = "hash_symbol c (syms c (symbols (objs c ! isec_file isec) ! r_sym ?rel)) ?ctx1"
      have "hash_rels c isec (i + 1) ref_idx ?ctx2 \<noteq> None"
        using True hf nofrag ok "1.prems"
        by (intro "1.IH"(2)) (simp_all add: fragments_before_Suc)
      moreover have "hash_rels c isec i ref_idx ctx = hash_rels c isec (i + 1) ref_idx ?ctx2"
        using True hf nofrag ok by (subst hash_rels.simps) (simp add: Let_def)
      ultimately show ?thesis by simp
    qed
  qed
qed

lemma compute_digest_total:
  assumes "digest_inputs_in_range c isec"
  shows "compute_digest sha256 c isec \<noteq> None"
proof -
  have "digest_prefix c isec \<noteq> None"
    unfolding digest_prefix_def using assms
    by (intro hash_fdes_total) (simp add: digest_inputs_in_range_def)
  then obtain prefix where p: "digest_prefix c isec = Some prefix" by auto
  have "hash_rels c isec 0 0 prefix \<noteq> None"
    using assms by (rule hash_rels_total) (simp add: fragments_before_def)
  then show ?thesis
    using p unfolding compute_digest_def compute_digest_input_def digest_prefix_def Let_def
    by auto
qed

text \<open>
  Claim C4.  For a section whose relocations, fragments, symbols and FDE records are in
  range, \<^verbatim>\<open>compute_digest\<close> returns the truncated hash of what was absorbed before the
  loop over the relocations, followed by the blocks of the section's relocations in their
  order: offset, type and addend of the relocation, and then tag 1 with addend and fragment
  bytes, or the fingerprint of the symbol with its tag 2, 3, 4, 5 or 6 and the symbol's
  value.
\<close>

theorem initial_digest_absorbs_relocations:
  assumes "digest_inputs_in_range c isec"
  shows "\<exists>prefix. digest_prefix c isec = Some prefix \<and>
     compute_digest sha256 c isec =
       Some (digest_final sha256
               (prefix @ concat (map (spec_relocation_block c isec) [0..<length (rels isec)])))"
proof -
  obtain d where d: "compute_digest sha256 c isec = Some d"
    using compute_digest_total [OF assms] by auto
  from initial_digest_of_result [OF d] d show ?thesis by auto
qed

theorem initial_digest_absorbs_relocations_witness:
  "(\<exists>prefix. digest_prefix example_context example_section = Some prefix \<and>
      compute_digest (\<lambda>bytes. 0) example_context example_section =
        Some (digest_final (\<lambda>bytes. 0)
          (prefix @ concat (map (spec_relocation_block example_context example_section)
             [0..<length (rels example_section)])))) \<and>
   spec_relocation_block example_context example_section 0 =
     [0, 0, 0, 0, 0, 0, 0, 0,  2, 0, 0, 0, 0, 0, 0, 0,  0, 0, 0, 0, 0, 0, 0, 0,
      3, 0, 0, 0, 0, 0, 0, 0,  0, 0, 0, 0, 0, 0, 0, 0]"
proof -
  have rng: "digest_inputs_in_range example_context example_section"
    by (simp add: digest_inputs_in_range_def example_context_def example_section_def
        fragments_before_def)
  have blk: "spec_relocation_block example_context example_section 0 =
     [0, 0, 0, 0, 0, 0, 0, 0,  2, 0, 0, 0, 0, 0, 0, 0,  0, 0, 0, 0, 0, 0, 0, 0,
      3, 0, 0, 0, 0, 0, 0, 0,  0, 0, 0, 0, 0, 0, 0, 0]"
    by code_simp
  from initial_digest_absorbs_relocations [OF rng, of "\<lambda>bytes. 0"] blk show ?thesis
    by (rule conjI)
qed

end
